theory Spec2Isabelle
  imports Main
begin

section \<open>Python values, strings and exceptions\<close>

text \<open>
  The scraper \<^verbatim>\<open>active_companies.py\<close> builds a list of dictionaries whose values
  are \<^verbatim>\<open>int\<close>, \<^verbatim>\<open>str\<close> or \<^verbatim>\<open>None\<close>. A dictionary literal keeps the
  order of its keys, so a company is an association list.

  Strings are \<open>string\<close>: one \<open>char\<close> stands for one code point below 256, so the
  model covers Latin-1 text. Within that range the only decimal digits are
  \<open>0\<close> to \<open>9\<close>, which is what \<^verbatim>\<open>int()\<close> accepts there.
\<close>

datatype pyval = PyNone | PyInt int | PyStr string

type_synonym company = "(string \<times> pyval) list"

text \<open>
  The exception classes the control flow of \<^verbatim>\<open>get_companies\<close> tells apart.
  \<open>WebDriverException\<close> stands for every other error a driver call can raise.
\<close>

datatype exn = TimeoutException | NoSuchElementException | ValueError | WebDriverException

subsection \<open>\<^verbatim>\<open>str.strip\<close>, \<^verbatim>\<open>str.split\<close> and \<^verbatim>\<open>int\<close>\<close>

definition isspace :: "char \<Rightarrow> bool" where
  "isspace c = (let n = (of_char c :: nat) in
     (9 \<le> n \<and> n \<le> 13) \<or> (28 \<le> n \<and> n \<le> 32) \<or> n = 133 \<or> n = 160)"

definition strip :: "string \<Rightarrow> string" where
  "strip s = rev (dropWhile isspace (rev (dropWhile isspace s)))"

text \<open>
  \<^verbatim>\<open>s.split(sep)\<close> for a one-character separator: the pieces between the
  separators, one more than there are separators, never an empty list.
\<close>

fun split :: "char \<Rightarrow> string \<Rightarrow> string list" where
  "split sep [] = [[]]"
| "split sep (c # cs) =
     (if c = sep then [] # split sep cs
      else (case split sep cs of
              p # ps \<Rightarrow> (c # p) # ps
            | [] \<Rightarrow> [[c]]))"

definition isdigit :: "char \<Rightarrow> bool" where
  "isdigit c = (let n = (of_char c :: nat) in 48 \<le> n \<and> n \<le> 57)"

definition digit_value :: "char \<Rightarrow> nat" where
  "digit_value c = of_char c - 48"

text \<open>
  The digits after the first one: a single underscore may stand between two digits.
\<close>

fun more_digits :: "string \<Rightarrow> nat \<Rightarrow> nat option" where
  "more_digits [] acc = Some acc"
| "more_digits [c] acc =
     (if isdigit c then Some (acc * 10 + digit_value c) else None)"
| "more_digits (c # d # ds) acc =
     (if isdigit c then more_digits (d # ds) (acc * 10 + digit_value c)
      else if c = CHR ''_'' \<and> isdigit d then more_digits ds (acc * 10 + digit_value d)
      else None)"

definition unsigned :: "string \<Rightarrow> nat option" where
  "unsigned s = (case s of
       [] \<Rightarrow> None
     | c # cs \<Rightarrow> if isdigit c then more_digits cs (digit_value c) else None)"

text \<open>
  The white space that \<^verbatim>\<open>int\<close> drops around a literal. It is narrower than the
  white space of \<^verbatim>\<open>str.strip\<close>: the four separators 28 to 31 are not in it.
\<close>

definition int_space :: "char \<Rightarrow> bool" where
  "int_space c = (let n = (of_char c :: nat) in
     (9 \<le> n \<and> n \<le> 13) \<or> n = 32 \<or> n = 133 \<or> n = 160)"

definition int_strip :: "string \<Rightarrow> string" where
  "int_strip s = rev (dropWhile int_space (rev (dropWhile int_space s)))"

text \<open>The default of \<^verbatim>\<open>sys.get_int_max_str_digits()\<close>.\<close>

definition int_max_str_digits :: nat where
  "int_max_str_digits = 4300"

text \<open>
  \<^verbatim>\<open>int(s)\<close> on a string, base ten: surrounding white space is dropped, one sign
  is allowed, and anything that is not a decimal literal raises \<open>ValueError\<close>. So
  does a literal with more digits than the interpreter's limit; the underscores, the
  sign and the white space do not count as digits, leading zeros do.
\<close>

definition int_of_str :: "string \<Rightarrow> exn + int" where
  "int_of_str s =
     (case int_strip s of
        [] \<Rightarrow> Inl ValueError
      | c # cs \<Rightarrow>
          (let u = (if c = CHR ''-'' \<or> c = CHR ''+'' then cs else c # cs)
           in case unsigned u of
                None \<Rightarrow> Inl ValueError
              | Some n \<Rightarrow>
                  if int_max_str_digits < length (filter isdigit u) then Inl ValueError
                  else Inr (if c = CHR ''-'' then - int n else int n)))"

section \<open>The parsed page\<close>

text \<open>
  \<^verbatim>\<open>BeautifulSoup(driver.page_source, "html.parser")\<close> yields a tree of tags and
  text nodes. A tag has a name, its attribute dictionary and its children. The parser
  itself is outside the program; the model starts from the tree.
\<close>

datatype node = Text string | Tag string "(string \<times> string) list" "node list"

fun descendants :: "node \<Rightarrow> node list" where
  "descendants (Text s) = []"
| "descendants (Tag name attrs kids) = concat (map (\<lambda>k. k # descendants k) kids)"

fun is_tag :: "string \<Rightarrow> node \<Rightarrow> bool" where
  "is_tag name (Text s) = False"
| "is_tag name (Tag name' attrs kids) = (name' = name)"

text \<open>\<^verbatim>\<open>tag.find_all(name)\<close>: the descendants with that tag name, in document order.\<close>

definition find_all :: "string \<Rightarrow> node \<Rightarrow> node list" where
  "find_all name nd = filter (is_tag name) (descendants nd)"

text \<open>\<^verbatim>\<open>tag.find(name)\<close>: the first of them, or \<^verbatim>\<open>None\<close>.\<close>

definition find_first :: "string \<Rightarrow> node \<Rightarrow> node option" where
  "find_first name nd = (case find_all name nd of [] \<Rightarrow> None | x # _ \<Rightarrow> Some x)"

text \<open>\<^verbatim>\<open>tag.get(key)\<close>: the attribute's value, or \<^verbatim>\<open>None\<close>.\<close>

fun get_attr :: "node \<Rightarrow> string \<Rightarrow> string option" where
  "get_attr (Text s) key = None"
| "get_attr (Tag name attrs kids) key = map_of attrs key"

fun all_strings :: "node \<Rightarrow> string list" where
  "all_strings (Text s) = [s]"
| "all_strings (Tag name attrs kids) = concat (map all_strings kids)"

text \<open>
  \<^verbatim>\<open>tag.get_text(strip=True)\<close>: every text node below the tag is stripped, the
  empty ones are dropped, and the rest are joined with nothing in between.
\<close>

definition get_text :: "node \<Rightarrow> string" where
  "get_text nd = concat (filter (\<lambda>s. s \<noteq> []) (map strip (all_strings nd)))"

text \<open>
  \<^verbatim>\<open>soup.select("tbody tr")\<close>: the \<open>tr\<close> tags that lie somewhere below a
  \<open>tbody\<close> tag, in document order. The flag says whether a \<open>tbody\<close> is among the
  ancestors.
\<close>

fun select_below :: "bool \<Rightarrow> node \<Rightarrow> node list" where
  "select_below inside (Text s) = []"
| "select_below inside (Tag name attrs kids) =
     (if inside \<and> name = ''tr'' then [Tag name attrs kids] else []) @
     concat (map (select_below (inside \<or> name = ''tbody'')) kids)"

definition select_tbody_tr :: "node list \<Rightarrow> node list" where
  "select_tbody_tr soup = concat (map (select_below False) soup)"

section \<open>One row\<close>

definition get_regulatory_body :: "string \<Rightarrow> string" where
  "get_regulatory_body sector_name = ''SEBON''"

text \<open>
  Lines 124 to 129: \<^verbatim>\<open>link = cols[1].find("a")\<close>, then the last piece of
  \<^verbatim>\<open>link["href"].split("/")\<close> when there is a link with a non-empty
  \<^verbatim>\<open>href\<close>, else \<^verbatim>\<open>None\<close>. A tag is always true in a condition.
\<close>

definition company_id :: "node list \<Rightarrow> string option" where
  "company_id cols =
     (case find_first ''a'' (cols ! 1) of
        None \<Rightarrow> None
      | Some link \<Rightarrow>
          (case get_attr link ''href'' of
             None \<Rightarrow> None
           | Some href \<Rightarrow> if href = [] then None else Some (last (split CHR ''/'' href))))"

text \<open>
  Line 135: \<^verbatim>\<open>int(company_id) if company_id else None\<close>. The empty string is
  false in a condition, as \<^verbatim>\<open>None\<close> is.
\<close>

definition id_value :: "string option \<Rightarrow> exn + pyval" where
  "id_value cid =
     (case cid of
        None \<Rightarrow> Inr PyNone
      | Some s \<Rightarrow>
          if s = [] then Inr PyNone
          else (case int_of_str s of Inl e \<Rightarrow> Inl e | Inr n \<Rightarrow> Inr (PyInt n)))"

text \<open>
  Lines 124 to 146 for a row that has passed the check on the number of cells: the
  dictionary that is appended, or the exception \<^verbatim>\<open>int\<close> raises.
\<close>

definition row_record :: "node list \<Rightarrow> exn + company" where
  "row_record cols =
     (let cid = company_id cols;
          sector_name = get_text (cols ! 4)
      in case id_value cid of
           Inl e \<Rightarrow> Inl e
         | Inr i \<Rightarrow> Inr
             [(''id'', i),
              (''companyName'', PyStr (get_text (cols ! 1))),
              (''symbol'', PyStr (get_text (cols ! 2))),
              (''securityName'', PyStr (get_text (cols ! 1))),
              (''status'', PyStr (get_text (cols ! 3))),
              (''sectorName'', PyStr sector_name),
              (''instrumentType'', PyStr (get_text (cols ! 5))),
              (''companyEmail'', PyStr (get_text (cols ! 6))),
              (''website'', PyStr (get_text (cols ! 7))),
              (''regulatoryBody'', PyStr (get_regulatory_body sector_name))])"

text \<open>
  The loop of lines 119 to 146 over the rows of one page. It appends to the list
  \<open>companies\<close> in place, so the list is returned also when a row raises: the first
  component is the exception that left the loop, if any.
\<close>

fun for_rows :: "node list \<Rightarrow> company list \<Rightarrow> exn option \<times> company list" where
  "for_rows [] companies = (None, companies)"
| "for_rows (row # rows) companies =
     (let cols = find_all ''td'' row in
      if length cols < 8 then for_rows rows companies
      else (case row_record cols of
              Inl e \<Rightarrow> (Some e, companies)
            | Inr r \<Rightarrow> for_rows rows (companies @ [r])))"

section \<open>The browser\<close>

text \<open>
  The Selenium driver is outside the program. Its answers are given as a script: one
  answer for each call made once, and for the calls of the loop one answer per pass,
  looked up under the page number. \<open>None\<close> is a call that returns, \<open>Some e\<close> one
  that raises \<open>e\<close>; \<open>page_source\<close> is the tree that BeautifulSoup makes of
  \<^verbatim>\<open>driver.page_source\<close>.
\<close>

record page_view =
  table_wait :: "exn option"
  page_source :: "exn + node list"
  find_element :: "exn option"
  click :: "exn option"

record browser =
  chrome :: "exn option"
  execute_cdp_cmd :: "exn option"
  driver_get :: "exn option"
  page_size_wait :: "exn option"
  select_by_value :: "exn option"
  view :: "nat \<Rightarrow> page_view"
  quit :: "exn option"

text \<open>What the program does to the outside, in the order it does it.\<close>

datatype call =
    NewChrome
  | ExecuteCdpCmd
  | DriverGet string
  | WaitPageSize
  | SelectByValue string
  | Sleep nat
  | WaitTable
  | PageSource
  | PrintScraped nat
  | FindElement
  | Click
  | PrintFetched nat
  | Quit

record state =
  companies :: "company list"
  page_no :: nat
  calls :: "call list"

definition did :: "call \<Rightarrow> state \<Rightarrow> state" where
  "did c s = s\<lparr>calls := calls s @ [c]\<rparr>"

definition BASE_URL :: string where
  "BASE_URL = ''https://nepalstock.com''"

section \<open>\<^verbatim>\<open>init_driver\<close>\<close>

text \<open>
  Lines 45 to 84. The options are configuration only. \<^verbatim>\<open>webdriver.Chrome\<close> may
  raise, and then there is no driver; whatever \<^verbatim>\<open>execute_cdp_cmd\<close> raises is
  caught by \<^verbatim>\<open>except Exception: pass\<close>.
\<close>

definition init_driver :: "browser \<Rightarrow> exn option \<times> call list" where
  "init_driver b =
     (case chrome b of
        Some e \<Rightarrow> (Some e, [NewChrome])
      | None \<Rightarrow>
          (case execute_cdp_cmd b of
             Some e \<Rightarrow> (None, [NewChrome, ExecuteCdpCmd])
           | None \<Rightarrow> (None, [NewChrome, ExecuteCdpCmd])))"

section \<open>\<^verbatim>\<open>get_companies\<close>\<close>

text \<open>
  The two handlers of the loop. \<open>None\<close> is \<^verbatim>\<open>break\<close>, \<open>Some e\<close> is an
  exception that no handler of the loop catches. An exception raised in the inner
  \<^verbatim>\<open>try\<close> of lines 152 to 157 that is not \<open>NoSuchElementException\<close> reaches
  the outer handler of line 159.
\<close>

definition except_timeout :: "exn \<Rightarrow> exn option" where
  "except_timeout e = (if e = TimeoutException then None else Some e)"

definition except_no_such_element :: "exn \<Rightarrow> exn option" where
  "except_no_such_element e =
     (if e = NoSuchElementException then None else except_timeout e)"

text \<open>
  One pass of the body of the \<^verbatim>\<open>while True\<close>, lines 113 to 160. There are
  three ways out of it: \<open>Break s\<close> is a \<^verbatim>\<open>break\<close> in state \<open>s\<close>,
  \<open>Raise e s\<close> is an exception that no handler of the loop catches, and
  \<open>Again s\<close> is the end of the body, from where the loop starts its next pass.
\<close>

datatype 'a pass = Again 'a | Break 'a | Raise exn 'a

definition handled :: "exn option \<Rightarrow> state \<Rightarrow> state pass" where
  "handled h s = (case h of None \<Rightarrow> Break s | Some e \<Rightarrow> Raise e s)"

definition loop_body :: "browser \<Rightarrow> state \<Rightarrow> state pass" where
  "loop_body b s =
     (let v = view b (page_no s);
          s1 = did WaitTable s
      in case table_wait v of
           Some e \<Rightarrow> handled (except_timeout e) s1
         | None \<Rightarrow>
             (let s2 = did PageSource s1
              in case page_source v of
                   Inl e \<Rightarrow> handled (except_timeout e) s2
                 | Inr soup \<Rightarrow>
                     (case for_rows (select_tbody_tr soup) (companies s2) of
                        (Some e, cs) \<Rightarrow> handled (except_timeout e) (s2\<lparr>companies := cs\<rparr>)
                      | (None, cs) \<Rightarrow>
                          (let s3 = did (PrintScraped (page_no s2)) (s2\<lparr>companies := cs\<rparr>);
                               s4 = s3\<lparr>page_no := page_no s3 + 1\<rparr>;
                               s5 = did FindElement s4
                           in case find_element v of
                                Some e \<Rightarrow> handled (except_no_such_element e) s5
                              | None \<Rightarrow>
                                  (let s6 = did Click s5
                                   in case click v of
                                        Some e \<Rightarrow> handled (except_no_such_element e) s6
                                      | None \<Rightarrow> Again (did (Sleep 3) s6))))))"

text \<open>
  The \<^verbatim>\<open>while True\<close> of line 112. Nothing bounds the number of passes, so the
  loop is a partial function: \<open>None\<close> is a run that never leaves the loop. A result
  \<open>(None, s)\<close> is the loop left by \<^verbatim>\<open>break\<close> in state \<open>s\<close>, and
  \<open>(Some e, s)\<close> is the loop left by the exception \<open>e\<close>.
\<close>

partial_function (option) while_true :: "browser \<Rightarrow> state \<Rightarrow> (exn option \<times> state) option" where
  "while_true b s =
     (case loop_body b s of
        Again s' \<Rightarrow> while_true b s'
      | Break s' \<Rightarrow> Some (None, s')
      | Raise e s' \<Rightarrow> Some (Some e, s'))"

text \<open>
  The body of the \<^verbatim>\<open>try\<close> of lines 98 to 163: the value returned or the
  exception raised, with the state at that point.
\<close>

definition try_body :: "browser \<Rightarrow> state \<Rightarrow> ((exn + company list) \<times> state) option" where
  "try_body b s =
     (let s1 = did (DriverGet (BASE_URL @ ''/company'')) s
      in case driver_get b of
           Some e \<Rightarrow> Some (Inl e, s1)
         | None \<Rightarrow>
             (let s2 = did WaitPageSize s1
              in case page_size_wait b of
                   Some e \<Rightarrow> Some (Inl e, s2)
                 | None \<Rightarrow>
                     (let s3 = did (SelectByValue ''500'') s2
                      in case select_by_value b of
                           Some e \<Rightarrow> Some (Inl e, s3)
                         | None \<Rightarrow>
                             (case while_true b (did (Sleep 2) s3) of
                                None \<Rightarrow> None
                              | Some (Some e, s') \<Rightarrow> Some (Inl e, s')
                              | Some (None, s') \<Rightarrow>
                                  Some (Inr (companies s'),
                                        did (PrintFetched (length (companies s'))) s')))))"

text \<open>
  \<^verbatim>\<open>get_companies\<close>, lines 87 to 166. The result is what the caller gets, a list
  or an exception, together with the calls made; \<open>None\<close> is a run that never comes
  back. The \<^verbatim>\<open>finally\<close> of line 165 runs \<^verbatim>\<open>driver.quit()\<close> however the
  body ended, and an exception of \<^verbatim>\<open>quit\<close> replaces the body's outcome.
\<close>

definition get_companies :: "bool \<Rightarrow> browser \<Rightarrow> ((exn + company list) \<times> call list) option" where
  "get_companies pull_latest b =
     (if \<not> pull_latest then Some (Inr [], [])
      else (case init_driver b of
              (Some e, log) \<Rightarrow> Some (Inl e, log)
            | (None, log) \<Rightarrow>
                (case try_body b \<lparr>companies = [], page_no = 1, calls = log\<rparr> of
                   None \<Rightarrow> None
                 | Some (r, s) \<Rightarrow>
                     (case quit b of
                        Some e \<Rightarrow> Some (Inl e, calls s @ [Quit])
                      | None \<Rightarrow> Some (r, calls s @ [Quit])))))"

declare while_true.simps [code]

section \<open>Notions used in the statements\<close>

text \<open>The value of a string of digits read from the left, continuing from \<open>acc\<close>.\<close>

definition decimal :: "string \<Rightarrow> nat \<Rightarrow> nat" where
  "decimal s acc = foldl (\<lambda>a c. a * 10 + digit_value c) acc s"

text \<open>
  The cells of a row give an id that \<^verbatim>\<open>int\<close> accepts: there is no link, no
  \<^verbatim>\<open>href\<close>, an empty last piece, or a last piece that is an integer literal.
\<close>

definition id_parses :: "node list \<Rightarrow> bool" where
  "id_parses cols =
     (case company_id cols of
        None \<Rightarrow> True
      | Some s \<Rightarrow> s = [] \<or> (case int_of_str s of Inl e \<Rightarrow> False | Inr n \<Rightarrow> True))"

text \<open>The row passes the check of line 121.\<close>

definition wide :: "node \<Rightarrow> bool" where
  "wide row = (\<not> length (find_all ''td'' row) < 8)"

text \<open>The value under \<^verbatim>\<open>"id"\<close> is an integer or \<^verbatim>\<open>None\<close>.\<close>

definition id_valid :: "company \<Rightarrow> bool" where
  "id_valid r =
     (case map_of r ''id'' of
        None \<Rightarrow> False
      | Some PyNone \<Rightarrow> True
      | Some (PyInt n) \<Rightarrow> True
      | Some (PyStr s) \<Rightarrow> False)"

text \<open>
  A page is extracted when the wait for the table returns, the page source can be read
  and the loop over its rows ends without an exception; \<open>records_of\<close> are the records of
  such a page, the ones the loop over its rows collects from an empty list.
\<close>

definition extracted :: "page_view \<Rightarrow> bool" where
  "extracted v =
     (table_wait v = None \<and>
      (case page_source v of
         Inl e \<Rightarrow> False
       | Inr soup \<Rightarrow> fst (for_rows (select_tbody_tr soup) []) = None))"

definition records_of :: "page_view \<Rightarrow> company list" where
  "records_of v =
     (case page_source v of
        Inl e \<Rightarrow> []
      | Inr soup \<Rightarrow> snd (for_rows (select_tbody_tr soup) []))"

text \<open>The next-page control is found and the click on it returns.\<close>

definition advanced :: "page_view \<Rightarrow> bool" where
  "advanced v = (find_element v = None \<and> click v = None)"

text \<open>The calls of one pass of the loop that ends with the click on the control.\<close>

definition pass_calls :: "nat \<Rightarrow> call list" where
  "pass_calls i = [WaitTable, PageSource, PrintScraped i, FindElement, Click, Sleep 3]"

text \<open>The calls before the loop once the driver exists.\<close>

definition setup_calls :: "call list" where
  "setup_calls =
     [NewChrome, ExecuteCdpCmd, DriverGet ''https://nepalstock.com/company'',
      WaitPageSize, SelectByValue ''500'', Sleep 2]"

text \<open>An extraction pass reads the page source once.\<close>

definition extraction_passes :: "call list \<Rightarrow> nat" where
  "extraction_passes log = length (filter (\<lambda>c. c = PageSource) log)"

definition quits :: "call list \<Rightarrow> nat" where
  "quits log = length (filter (\<lambda>c. c = Quit) log)"

section \<open>Sample pages\<close>

text \<open>
  A row of the listing as the site renders it: a serial number, the name inside a
  link, and six more cells. \<open>linked attrs\<close> is the name cell whose link has the
  attributes \<open>attrs\<close>; \<open>unlinked\<close> is a name cell without a link.
\<close>

definition cell :: "string \<Rightarrow> node" where
  "cell t = Tag ''td'' [] [Text t]"

definition linked :: "(string \<times> string) list \<Rightarrow> node" where
  "linked attrs = Tag ''td'' [] [Text '' '', Tag ''a'' attrs [Text '' Nabil Bank Limited '']]"

definition unlinked :: node where
  "unlinked = Tag ''td'' [] [Text '' Nabil Bank Limited '']"

definition listing_cells :: "node \<Rightarrow> node list" where
  "listing_cells name_cell =
     [cell ''1'', name_cell, cell ''NABIL'', cell ''Active'', cell ''Commercial Banks'',
      cell ''Equity'', cell ''info@nabilbank.com'', cell ''www.nabilbank.com'']"

definition listing :: "node \<Rightarrow> node" where
  "listing name_cell = Tag ''tr'' [] (listing_cells name_cell)"

definition short_row :: node where
  "short_row = Tag ''tr'' [] [cell ''No records'']"

text \<open>The record of such a row, with the id \<open>i\<close>.\<close>

definition nabil :: "pyval \<Rightarrow> company" where
  "nabil i =
     [(''id'', i),
      (''companyName'', PyStr ''Nabil Bank Limited''),
      (''symbol'', PyStr ''NABIL''),
      (''securityName'', PyStr ''Nabil Bank Limited''),
      (''status'', PyStr ''Active''),
      (''sectorName'', PyStr ''Commercial Banks''),
      (''instrumentType'', PyStr ''Equity''),
      (''companyEmail'', PyStr ''info@nabilbank.com''),
      (''website'', PyStr ''www.nabilbank.com''),
      (''regulatoryBody'', PyStr ''SEBON'')]"

text \<open>
  A page whose table body holds the given rows, with the answers of the wait for the
  table and of the search for the next-page control; and a browser that starts,
  navigates, offers the page-size dropdown and quits without error.
\<close>

definition page :: "exn option \<Rightarrow> node list \<Rightarrow> exn option \<Rightarrow> page_view" where
  "page waited rows next =
     \<lparr>table_wait = waited,
      page_source = Inr [Tag ''table'' [] [Tag ''thead'' [] [Tag ''tr'' [] [Tag ''th'' [] [Text ''Name'']]],
                                            Tag ''tbody'' [] rows]],
      find_element = next,
      click = None\<rparr>"

definition site :: "(nat \<Rightarrow> page_view) \<Rightarrow> browser" where
  "site pages =
     \<lparr>chrome = None, execute_cdp_cmd = None, driver_get = None, page_size_wait = None,
      select_by_value = None, view = pages, quit = None\<rparr>"

text \<open>
  Three sites. On the first the control is found on page 1 and missing on page 2; on
  the second the table of page 2 never shows; on the third a link of page 1 ends in a
  piece that is not a number.
\<close>

definition two_pages :: "nat \<Rightarrow> page_view" where
  "two_pages i =
     (if i = 1 then page None [listing (linked [(''href'', ''/company/482'')]), short_row] None
      else page None [listing unlinked] (Some NoSuchElementException))"

definition stalled_pages :: "nat \<Rightarrow> page_view" where
  "stalled_pages i =
     (if i = 1 then page None [listing (linked [(''href'', ''/company/482'')]), short_row] None
      else page (Some TimeoutException) [] None)"

definition bad_link_pages :: "nat \<Rightarrow> page_view" where
  "bad_link_pages i =
     page None [listing (linked [(''href'', ''/company/abc'')]), short_row]
       (Some NoSuchElementException)"

section \<open>Writing the list as JSON\<close>

text \<open>
  Line 174: \<^verbatim>\<open>json.dump(data, f, ensure_ascii=False, indent=2)\<close>. The text that the
  encoder of Python's \<^verbatim>\<open>json\<close> module writes for a list of dictionaries with
  string keys and values that are \<^verbatim>\<open>None\<close>, integers or strings: two spaces per
  level, a comma between the entries, a colon and a space after a key, and in a string
  only the quote, the backslash and the characters below 32 escaped.
\<close>

definition quote :: char where "quote = CHR 0x22"
definition backslash :: char where "backslash = CHR 0x5C"
definition newline :: char where "newline = CHR 0x0A"

definition hex_digit :: "nat \<Rightarrow> char" where
  "hex_digit d = ''0123456789abcdef'' ! d"

definition escape_char :: "char \<Rightarrow> string" where
  "escape_char c =
     (if c = quote then [backslash, quote]
      else if c = backslash then [backslash, backslash]
      else if c = CHR 0x0A then [backslash, CHR ''n'']
      else if c = CHR 0x0D then [backslash, CHR ''r'']
      else if c = CHR 0x09 then [backslash, CHR ''t'']
      else if c = CHR 0x08 then [backslash, CHR ''b'']
      else if c = CHR 0x0C then [backslash, CHR ''f'']
      else if (of_char c :: nat) < 32 then
        [backslash, CHR ''u'', CHR ''0'', CHR ''0'',
         hex_digit (of_char c div 16), hex_digit (of_char c mod 16)]
      else [c])"

definition encode_str :: "string \<Rightarrow> string" where
  "encode_str s = quote # concat (map escape_char s) @ [quote]"

definition digit_char :: "nat \<Rightarrow> char" where
  "digit_char d = ''0123456789'' ! d"

fun digits :: "nat \<Rightarrow> string" where
  "digits n = (if n < 10 then [digit_char n] else digits (n div 10) @ [digit_char (n mod 10)])"

declare digits.simps [simp del]

definition encode_int :: "int \<Rightarrow> string" where
  "encode_int i = (if i < 0 then CHR ''-'' # digits (nat (- i)) else digits (nat i))"

definition encode_value :: "pyval \<Rightarrow> string" where
  "encode_value v =
     (case v of PyNone \<Rightarrow> ''null'' | PyInt i \<Rightarrow> encode_int i | PyStr s \<Rightarrow> encode_str s)"

fun join :: "string \<Rightarrow> string list \<Rightarrow> string" where
  "join sep [] = []"
| "join sep [x] = x"
| "join sep (x # y # ys) = x @ sep @ join sep (y # ys)"

definition encode_item :: "string \<times> pyval \<Rightarrow> string" where
  "encode_item kv = encode_str (fst kv) @ '': '' @ encode_value (snd kv)"

definition encode_dict :: "company \<Rightarrow> string" where
  "encode_dict r =
     (if r = [] then ''{}''
      else ''{'' @ newline # ''    '' @
           join (CHR '','' # newline # ''    '') (map encode_item r) @
           newline # ''  '' @ ''}'')"

definition dumps :: "company list \<Rightarrow> string" where
  "dumps data =
     (if data = [] then ''[]''
      else ''['' @ newline # ''  '' @
           join (CHR '','' # newline # ''  '') (map encode_dict data) @
           newline # '']'')"

section \<open>Reading JSON\<close>

text \<open>
  What \<^verbatim>\<open>json.load\<close> makes of a text: \<^verbatim>\<open>None\<close>, booleans, integers,
  strings, lists, and dictionaries as association lists in the order of insertion.
  Numbers with a fraction or an exponent and escapes of code points from 256 on are
  outside the model, the reader gives \<open>None\<close> for them. The nat argument of the
  three parsing functions bounds the number of nested calls; \<open>loads\<close> gives them
  the length of the text.
\<close>

datatype json = JNull | JBool bool | JInt int | JStr string | JArr "json list" | JObj "(string \<times> json) list"

definition is_ws :: "char \<Rightarrow> bool" where
  "is_ws c = (c = CHR '' '' \<or> c = CHR 0x09 \<or> c = CHR 0x0A \<or> c = CHR 0x0D)"

definition skip_ws :: "string \<Rightarrow> string" where
  "skip_ws s = dropWhile is_ws s"

definition hex_value :: "char \<Rightarrow> nat option" where
  "hex_value c =
     (let n = (of_char c :: nat) in
      if 48 \<le> n \<and> n \<le> 57 then Some (n - 48)
      else if 97 \<le> n \<and> n \<le> 102 then Some (n - 87)
      else if 65 \<le> n \<and> n \<le> 70 then Some (n - 55)
      else None)"

definition hex4 :: "char \<Rightarrow> char \<Rightarrow> char \<Rightarrow> char \<Rightarrow> char option" where
  "hex4 a b c d =
     (case (hex_value a, hex_value b, hex_value c, hex_value d) of
        (Some w, Some x, Some y, Some z) \<Rightarrow>
          (let n = ((w * 16 + x) * 16 + y) * 16 + z
           in if n < 256 then Some (char_of n) else None)
      | _ \<Rightarrow> None)"

definition unescape :: "char \<Rightarrow> char option" where
  "unescape e =
     (if e = quote then Some quote
      else if e = backslash then Some backslash
      else if e = CHR ''/'' then Some CHR ''/''
      else if e = CHR ''b'' then Some (CHR 0x08)
      else if e = CHR ''f'' then Some (CHR 0x0C)
      else if e = CHR ''n'' then Some (CHR 0x0A)
      else if e = CHR ''r'' then Some (CHR 0x0D)
      else if e = CHR ''t'' then Some (CHR 0x09)
      else None)"

fun scan_string :: "string \<Rightarrow> string \<Rightarrow> (string \<times> string) option" where
  "scan_string acc [] = None"
| "scan_string acc (c # cs) =
     (if c = quote then Some (acc, cs)
      else if c = backslash then
        (case cs of
           [] \<Rightarrow> None
         | e # es \<Rightarrow>
             if e = CHR ''u'' then
               (case es of
                  a # b # c' # d # rest \<Rightarrow>
                    (case hex4 a b c' d of
                       None \<Rightarrow> None
                     | Some x \<Rightarrow> scan_string (acc @ [x]) rest)
                | _ \<Rightarrow> None)
             else
               (case unescape e of
                  None \<Rightarrow> None
                | Some x \<Rightarrow> scan_string (acc @ [x]) es))
      else if (of_char c :: nat) < 32 then None
      else scan_string (acc @ [c]) cs)"

definition scan_number :: "string \<Rightarrow> (int \<times> string) option" where
  "scan_number s =
     (let neg = (s \<noteq> [] \<and> hd s = CHR ''-'');
          r = (if neg then tl s else s)
      in case r of
           [] \<Rightarrow> None
         | d # ds \<Rightarrow>
             if \<not> isdigit d then None
             else
               (let num = (if d = CHR ''0'' then [d] else takeWhile isdigit r);
                    rest = drop (length num) r
                in if rest \<noteq> [] \<and> hd rest \<in> {CHR ''.'', CHR ''e'', CHR ''E''} then None
                   else Some (if neg then - int (decimal num 0) else int (decimal num 0), rest)))"

fun setitem :: "(string \<times> json) list \<Rightarrow> string \<Rightarrow> json \<Rightarrow> (string \<times> json) list" where
  "setitem [] k v = [(k, v)]"
| "setitem (p # ps) k v = (if fst p = k then (k, v) # ps else p # setitem ps k v)"

fun parse_value :: "nat \<Rightarrow> string \<Rightarrow> (json \<times> string) option"
  and parse_array :: "nat \<Rightarrow> json list \<Rightarrow> string \<Rightarrow> (json \<times> string) option"
  and parse_object :: "nat \<Rightarrow> (string \<times> json) list \<Rightarrow> string \<Rightarrow> (json \<times> string) option"
where
  "parse_value 0 s = None"
| "parse_value (Suc f) s =
     (case s of
        [] \<Rightarrow> None
      | c # r \<Rightarrow>
          if c = quote then
            (case scan_string [] r of None \<Rightarrow> None | Some (x, r') \<Rightarrow> Some (JStr x, r'))
          else if c = CHR ''{'' then
            (case skip_ws r of
               [] \<Rightarrow> None
             | c' # r' \<Rightarrow> if c' = CHR ''}'' then Some (JObj [], r') else parse_object f [] (c' # r'))
          else if c = CHR ''['' then
            (case skip_ws r of
               [] \<Rightarrow> None
             | c' # r' \<Rightarrow> if c' = CHR '']'' then Some (JArr [], r') else parse_array f [] (c' # r'))
          else if take 4 s = ''null'' then Some (JNull, drop 4 s)
          else if take 4 s = ''true'' then Some (JBool True, drop 4 s)
          else if take 5 s = ''false'' then Some (JBool False, drop 5 s)
          else (case scan_number s of None \<Rightarrow> None | Some (i, r') \<Rightarrow> Some (JInt i, r')))"
| "parse_array 0 acc s = None"
| "parse_array (Suc f) acc s =
     (case parse_value f s of
        None \<Rightarrow> None
      | Some (v, r) \<Rightarrow>
          (case skip_ws r of
             [] \<Rightarrow> None
           | c # r' \<Rightarrow>
               if c = CHR '']'' then Some (JArr (acc @ [v]), r')
               else if c = CHR '','' then parse_array f (acc @ [v]) (skip_ws r')
               else None))"
| "parse_object 0 acc s = None"
| "parse_object (Suc f) acc s =
     (case s of
        [] \<Rightarrow> None
      | q # r \<Rightarrow>
          if q \<noteq> quote then None
          else
            (case scan_string [] r of
               None \<Rightarrow> None
             | Some (k, r1) \<Rightarrow>
                 (case skip_ws r1 of
                    [] \<Rightarrow> None
                  | c # r2 \<Rightarrow>
                      if c \<noteq> CHR '':'' then None
                      else
                        (case parse_value f (skip_ws r2) of
                           None \<Rightarrow> None
                         | Some (v, r3) \<Rightarrow>
                             (case skip_ws r3 of
                                [] \<Rightarrow> None
                              | c' # r4 \<Rightarrow>
                                  if c' = CHR ''}'' then Some (JObj (setitem acc k v), r4)
                                  else if c' = CHR '','' then
                                    parse_object f (setitem acc k v) (skip_ws r4)
                                  else None)))))"

definition loads :: "string \<Rightarrow> json option" where
  "loads s =
     (let t = skip_ws s
      in case parse_value (length t) t of
           None \<Rightarrow> None
         | Some (v, r) \<Rightarrow> if skip_ws r = [] then Some v else None)"

section \<open>Records and what loading them gives\<close>

text \<open>
  A record has the ten keys of lines 135 to 144 in their order, an integer or
  \<^verbatim>\<open>None\<close> under the first and strings under the others.
\<close>

definition is_str :: "pyval \<Rightarrow> bool" where
  "is_str v = (case v of PyStr s \<Rightarrow> True | _ \<Rightarrow> False)"

definition is_record :: "company \<Rightarrow> bool" where
  "is_record r =
     (map fst r =
        [''id'', ''companyName'', ''symbol'', ''securityName'', ''status'', ''sectorName'',
         ''instrumentType'', ''companyEmail'', ''website'', ''regulatoryBody''] \<and>
      id_valid r \<and> list_all is_str (map snd (tl r)))"

text \<open>The same list as a value of the reader: the same keys, order and values.\<close>

definition json_of :: "pyval \<Rightarrow> json" where
  "json_of v = (case v of PyNone \<Rightarrow> JNull | PyInt i \<Rightarrow> JInt i | PyStr s \<Rightarrow> JStr s)"

definition as_loaded :: "company list \<Rightarrow> json" where
  "as_loaded data = JArr (map (\<lambda>r. JObj (map (\<lambda>kv. (fst kv, json_of (snd kv))) r)) data)"

text \<open>What follows a value in the text written: a comma, a line break or the end.\<close>

definition stops :: "string \<Rightarrow> bool" where
  "stops rest = (rest = [] \<or> hd rest = CHR '','' \<or> hd rest = newline)"

section \<open>The string functions\<close>

lemma split_not_Nil: "split sep s \<noteq> []"
  by (induction s) (auto split: list.splits)

lemma split_no_sep: "sep \<notin> set s \<Longrightarrow> split sep s = [s]"
  by (induction s) auto

lemma split_append_sep: "split sep (p @ sep # s) = split sep p @ split sep s"
  using split_not_Nil by (induction p) (auto split: list.splits)

lemma last_split_suffix: "sep \<notin> set s \<Longrightarrow> last (split sep (p @ sep # s)) = s"
  by (simp add: split_append_sep split_no_sep)

text \<open>The last piece is the text after the final separator.\<close>

lemma last_split: "last (split sep s) = rev (takeWhile (\<lambda>c. c \<noteq> sep) (rev s))"
proof (induction s rule: rev_induct)
  case Nil
  then show ?case by simp
next
  case (snoc x xs)
  show ?case
  proof (cases "x = sep")
    case True
    then show ?thesis using split_append_sep [of sep xs "[]"] by simp
  next
    case False
    have "split sep (ys @ [x]) = butlast (split sep ys) @ [last (split sep ys) @ [x]]" for ys
      using False split_not_Nil by (induction ys) (auto split: list.splits)
    then show ?thesis using snoc False by simp
  qed
qed

lemma isdigit_not_space: "isdigit c \<Longrightarrow> \<not> int_space c"
  by (auto simp: isdigit_def int_space_def Let_def)

lemma isdigit_not_sign: "isdigit c \<Longrightarrow> c \<noteq> CHR ''-'' \<and> c \<noteq> CHR ''+''"
  by (auto simp: isdigit_def)

lemma int_strip_digits: "list_all isdigit s \<Longrightarrow> int_strip s = s"
proof (cases s rule: rev_cases)
  case Nil
  then show ?thesis by (simp add: int_strip_def)
next
  case (snoc ys y)
  assume a: "list_all isdigit s"
  then have 1: "dropWhile int_space s = s"
    using snoc by (cases ys) (auto simp: isdigit_not_space)
  show ?thesis
    using a snoc unfolding int_strip_def 1 by (simp add: isdigit_not_space)
qed

lemma more_digits_decimal: "list_all isdigit s \<Longrightarrow> more_digits s acc = Some (decimal s acc)"
  by (induction s acc rule: more_digits.induct) (auto simp: decimal_def)

lemma unsigned_digits:
  "s \<noteq> [] \<Longrightarrow> list_all isdigit s \<Longrightarrow> unsigned s = Some (decimal s 0)"
  by (cases s) (auto simp: unsigned_def more_digits_decimal decimal_def)

lemma filter_digits: "list_all isdigit s \<Longrightarrow> filter isdigit s = s"
  by (simp add: list_all_iff)

text \<open>
  A non-empty string of digits is read as its decimal value when it has no more
  digits than the limit, and raises when it has more.
\<close>

lemma int_of_str_digits:
  assumes "s \<noteq> []" and "list_all isdigit s" and "length s \<le> int_max_str_digits"
  shows "int_of_str s = Inr (int (decimal s 0))"
proof -
  obtain c cs where s: "s = c # cs"
    using assms(1) by (cases s) auto
  have 1: "int_strip s = c # cs"
    using int_strip_digits [OF assms(2)] s by simp
  have 2: "c \<noteq> CHR ''-''" "c \<noteq> CHR ''+''"
    using assms(2) isdigit_not_sign [of c] s by simp_all
  have 3: "unsigned (c # cs) = Some (decimal s 0)"
    using unsigned_digits [OF assms(1,2)] s by simp
  have 4: "length (filter isdigit (c # cs)) = length s"
    using filter_digits [OF assms(2)] s by simp
  show ?thesis
    unfolding int_of_str_def 1 using 2 assms(3)
    by (simp only: list.case Let_def if_False 3 4 option.case simp_thms not_less [symmetric])
qed

lemma int_of_str_too_long:
  assumes "list_all isdigit s" and "int_max_str_digits < length s"
  shows "int_of_str s = Inl ValueError"
proof -
  obtain c cs where s: "s = c # cs"
    using assms(2) by (cases s) auto
  have 1: "int_strip s = c # cs"
    using int_strip_digits [OF assms(1)] s by simp
  have 2: "c \<noteq> CHR ''-''" "c \<noteq> CHR ''+''"
    using assms(1) isdigit_not_sign [of c] s by simp_all
  have 4: "length (filter isdigit (c # cs)) = length s"
    using filter_digits [OF assms(1)] s by simp
  show ?thesis
    unfolding int_of_str_def 1 using 2 assms(2)
    by (simp only: list.case Let_def if_False 4 simp_thms if_True split: option.splits)
qed

lemma int_of_str_482: "int_of_str ''482'' = Inr 482"
  by (simp add: int_of_str_digits int_max_str_digits_def isdigit_def decimal_def
      digit_value_def)

lemma int_of_str_abc: "int_of_str ''abc'' = Inl ValueError"
  by (simp add: int_of_str_def int_strip_def int_space_def unsigned_def isdigit_def)

text \<open>
  Two strings that \<^verbatim>\<open>str.strip\<close> would turn into a number and \<^verbatim>\<open>int\<close>
  refuses, and one that only the limit refuses.
\<close>

lemma int_of_str_separator: "int_of_str [CHR 0x1C, CHR ''7''] = Inl ValueError"
  by (simp add: int_of_str_def int_strip_def int_space_def unsigned_def isdigit_def)

lemma int_of_str_4301_digits: "int_of_str (replicate 4301 CHR ''1'') = Inl ValueError"
  by (rule int_of_str_too_long)
    (simp_all add: list_all_iff isdigit_def int_max_str_digits_def)

section \<open>Rows\<close>

lemma for_rows_short:
  "length (find_all ''td'' row) < 8 \<Longrightarrow> for_rows (row # rows) cs = for_rows rows cs"
  by simp

lemma for_rows_wide:
  "\<not> length (find_all ''td'' row) < 8 \<Longrightarrow>
   for_rows (row # rows) cs =
     (case row_record (find_all ''td'' row) of
        Inl e \<Rightarrow> (Some e, cs)
      | Inr r \<Rightarrow> for_rows rows (cs @ [r]))"
  by simp

lemma int_of_str_error: "int_of_str s = Inl e \<Longrightarrow> e = ValueError"
  by (auto simp: int_of_str_def Let_def split: list.splits if_splits option.splits)

lemma id_value_error: "id_value cid = Inl e \<Longrightarrow> e = ValueError"
  by (auto simp: id_value_def split: option.splits if_splits sum.splits dest: int_of_str_error)

lemma id_value_valid: "id_value cid = Inr i \<Longrightarrow> i = PyNone \<or> (\<exists>n. i = PyInt n)"
  by (auto simp: id_value_def split: option.splits if_splits sum.splits)

lemma row_record_unfold:
  "row_record cols =
     (case id_value (company_id cols) of
        Inl e \<Rightarrow> Inl e
      | Inr i \<Rightarrow> Inr
          [(''id'', i),
           (''companyName'', PyStr (get_text (cols ! 1))),
           (''symbol'', PyStr (get_text (cols ! 2))),
           (''securityName'', PyStr (get_text (cols ! 1))),
           (''status'', PyStr (get_text (cols ! 3))),
           (''sectorName'', PyStr (get_text (cols ! 4))),
           (''instrumentType'', PyStr (get_text (cols ! 5))),
           (''companyEmail'', PyStr (get_text (cols ! 6))),
           (''website'', PyStr (get_text (cols ! 7))),
           (''regulatoryBody'', PyStr (get_regulatory_body (get_text (cols ! 4))))])"
  by (simp add: row_record_def Let_def)

lemma row_record_id:
  "row_record cols = Inr r \<Longrightarrow> id_value (company_id cols) = Inr i \<Longrightarrow> map_of r ''id'' = Some i"
  by (auto simp: row_record_unfold)

lemma row_record_error: "row_record cols = Inl e \<Longrightarrow> e = ValueError"
  by (auto simp: row_record_unfold split: sum.splits dest: id_value_error)

lemma row_record_records: "row_record cols = Inr r \<Longrightarrow> is_record r"
  by (auto simp: row_record_unfold is_record_def id_valid_def is_str_def split: sum.splits
      dest: id_value_valid)

lemma id_parses_value: "id_parses cols \<Longrightarrow> \<exists>i. id_value (company_id cols) = Inr i"
  by (auto simp: id_parses_def id_value_def split: option.splits sum.splits)

lemma id_parses_record: "id_parses cols \<Longrightarrow> \<exists>r. row_record cols = Inr r"
  using id_parses_value [of cols] by (auto simp: row_record_unfold)

lemma for_rows_acc:
  "for_rows rows cs = (fst (for_rows rows []), cs @ snd (for_rows rows []))"
proof (induction rows arbitrary: cs)
  case Nil
  then show ?case by simp
next
  case (Cons row rows)
  show ?case
  proof (cases "length (find_all ''td'' row) < 8")
    case True
    then show ?thesis using Cons [of cs] by simp
  next
    case False
    show ?thesis
    proof (cases "row_record (find_all ''td'' row)")
      case (Inl e)
      then show ?thesis using False by simp
    next
      case (Inr r)
      then show ?thesis
        using False Cons [of "cs @ [r]"] Cons [of "[r]"] by simp
    qed
  qed
qed

lemma for_rows_filter: "for_rows rows cs = for_rows (filter wide rows) cs"
  by (induction rows arbitrary: cs) (auto simp: wide_def Let_def split: sum.splits)

lemma for_rows_error: "fst (for_rows rows cs) = Some e \<Longrightarrow> e = ValueError"
  by (induction rows arbitrary: cs)
    (auto simp: Let_def split: if_splits sum.splits dest: row_record_error)

lemma for_rows_records:
  "list_all is_record cs \<Longrightarrow> list_all is_record (snd (for_rows rows cs))"
  by (induction rows arbitrary: cs)
    (auto simp: Let_def split: sum.splits dest: row_record_records)

lemma for_rows_parses:
  "\<forall>row\<in>set rows. wide row \<longrightarrow> id_parses (find_all ''td'' row) \<Longrightarrow>
   fst (for_rows rows cs) = None \<and>
   map Inr (snd (for_rows rows cs)) =
     map Inr cs @ map (\<lambda>row. row_record (find_all ''td'' row)) (filter wide rows)"
proof (induction rows arbitrary: cs)
  case Nil
  then show ?case by simp
next
  case (Cons row rows)
  show ?case
  proof (cases "wide row")
    case False
    then have "length (find_all ''td'' row) < 8"
      by (simp add: wide_def)
    then show ?thesis using False Cons by simp
  next
    case True
    then obtain r where r: "row_record (find_all ''td'' row) = Inr r"
      using Cons.prems id_parses_record by auto
    have "fst (for_rows rows (cs @ [r])) = None \<and>
      map Inr (snd (for_rows rows (cs @ [r]))) =
        map Inr (cs @ [r]) @ map (\<lambda>row. row_record (find_all ''td'' row)) (filter wide rows)"
      using Cons.IH [of "cs @ [r]"] Cons.prems by simp
    moreover have "\<not> length (find_all ''td'' row) < 8"
      using True by (simp add: wide_def)
    ultimately show ?thesis using True r by simp
  qed
qed

section \<open>The sample rows\<close>

lemma cells_listing: "find_all ''td'' (listing (linked attrs)) = listing_cells (linked attrs)"
  by (simp add: find_all_def listing_def listing_cells_def linked_def cell_def)

lemma cells_listing_unlinked: "find_all ''td'' (listing unlinked) = listing_cells unlinked"
  by (simp add: find_all_def listing_def listing_cells_def unlinked_def cell_def)

lemma cells_short_row: "find_all ''td'' short_row = [cell ''No records'']"
  by (simp add: find_all_def short_row_def cell_def)

lemma length_listing_cells: "length (listing_cells c) = 8"
  by (simp add: listing_cells_def)

lemma wide_listing: "wide (listing (linked attrs))" "wide (listing unlinked)" "\<not> wide short_row"
  by (simp_all add: wide_def cells_listing cells_listing_unlinked cells_short_row
      length_listing_cells)

lemma get_text_linked: "get_text (linked attrs) = ''Nabil Bank Limited''"
  by (simp add: get_text_def linked_def strip_def isspace_def)

lemma get_text_unlinked: "get_text unlinked = ''Nabil Bank Limited''"
  by (simp add: get_text_def unlinked_def strip_def isspace_def)

lemma get_text_cell:
  "get_text (cell ''NABIL'') = ''NABIL''"
  "get_text (cell ''Active'') = ''Active''"
  "get_text (cell ''Commercial Banks'') = ''Commercial Banks''"
  "get_text (cell ''Equity'') = ''Equity''"
  "get_text (cell ''info@nabilbank.com'') = ''info@nabilbank.com''"
  "get_text (cell ''www.nabilbank.com'') = ''www.nabilbank.com''"
  by (simp_all add: get_text_def cell_def strip_def isspace_def)

lemma nth_listing_cells:
  "listing_cells c ! 1 = c"
  "listing_cells c ! Suc 0 = c"
  "listing_cells c ! 2 = cell ''NABIL''"
  "listing_cells c ! 3 = cell ''Active''"
  "listing_cells c ! 4 = cell ''Commercial Banks''"
  "listing_cells c ! 5 = cell ''Equity''"
  "listing_cells c ! 6 = cell ''info@nabilbank.com''"
  "listing_cells c ! 7 = cell ''www.nabilbank.com''"
  by (simp_all add: listing_cells_def)

lemma find_first_linked:
  "find_first ''a'' (linked attrs) = Some (Tag ''a'' attrs [Text '' Nabil Bank Limited ''])"
  by (simp add: find_first_def find_all_def linked_def)

lemma find_first_unlinked: "find_first ''a'' unlinked = None"
  by (simp add: find_first_def find_all_def unlinked_def)

lemma company_id_listing:
  "company_id (listing_cells (linked attrs)) =
     (case map_of attrs ''href'' of
        None \<Rightarrow> None
      | Some href \<Rightarrow> if href = [] then None else Some (last (split CHR ''/'' href)))"
  by (simp add: company_id_def nth_listing_cells find_first_linked)

lemma company_id_unlinked: "company_id (listing_cells unlinked) = None"
  by (simp add: company_id_def nth_listing_cells find_first_unlinked)

lemma row_record_listing:
  "row_record (listing_cells (linked attrs)) =
     (case id_value (company_id (listing_cells (linked attrs))) of
        Inl e \<Rightarrow> Inl e
      | Inr i \<Rightarrow> Inr (nabil i))"
  by (simp add: row_record_unfold nth_listing_cells get_text_linked get_text_cell nabil_def
      get_regulatory_body_def split: sum.splits)

lemma row_record_unlinked: "row_record (listing_cells unlinked) = Inr (nabil PyNone)"
  by (simp add: row_record_unfold nth_listing_cells get_text_unlinked get_text_cell nabil_def
      get_regulatory_body_def company_id_unlinked id_value_def)

lemma id_482: "id_value (company_id (listing_cells (linked [(''href'', ''/company/482'')]))) = Inr (PyInt 482)"
  by (simp add: company_id_listing id_value_def int_of_str_482)

lemma id_abc: "id_value (company_id (listing_cells (linked [(''href'', ''/company/abc'')]))) = Inl ValueError"
  by (simp add: company_id_listing id_value_def int_of_str_abc)

lemma id_slash: "id_value (company_id (listing_cells (linked [(''href'', ''/company/'')]))) = Inr PyNone"
  by (simp add: company_id_listing id_value_def)

lemma id_no_href: "id_value (company_id (listing_cells (linked []))) = Inr PyNone"
  by (simp add: company_id_listing id_value_def)

lemma for_rows_listing:
  "for_rows (listing (linked attrs) # rows) cs =
     (case id_value (company_id (listing_cells (linked attrs))) of
        Inl e \<Rightarrow> (Some e, cs)
      | Inr i \<Rightarrow> for_rows rows (cs @ [nabil i]))"
  by (simp add: cells_listing length_listing_cells row_record_listing split: sum.splits)

lemma for_rows_unlinked:
  "for_rows (listing unlinked # rows) cs = for_rows rows (cs @ [nabil PyNone])"
  by (simp add: cells_listing_unlinked length_listing_cells row_record_unlinked)

lemma for_rows_short_row: "for_rows (short_row # rows) cs = for_rows rows cs"
  by (simp add: cells_short_row)

lemma for_rows_Nil: "for_rows [] cs = (None, cs)"
  by simp

lemmas sample_rows =
  for_rows_listing for_rows_unlinked for_rows_short_row for_rows_Nil
  id_482 id_abc id_slash id_no_href

section \<open>Claims about one row and one page\<close>

text \<open>
  C8. \<^verbatim>\<open>get_companies(False)\<close> returns the empty list at once: no driver is
  started and no call reaches a browser.
\<close>

theorem get_companies_disabled: "get_companies False b = Some (Inr [], [])"
  by (simp add: get_companies_def)

text \<open>
  C10. A row with at least eight cells whose link has an \<^verbatim>\<open>href\<close> with an
  empty last piece (nothing after the final slash) gives a record with the id
  \<^verbatim>\<open>None\<close>, and no exception.
\<close>

theorem empty_segment_gives_null_id:
  assumes "\<not> length (find_all ''td'' row) < 8"
    and "find_first ''a'' (find_all ''td'' row ! 1) = Some link"
    and "get_attr link ''href'' = Some href"
    and "last (split CHR ''/'' href) = []"
  shows "\<exists>r. for_rows [row] [] = (None, [r]) \<and> map_of r ''id'' = Some PyNone"
proof -
  have "id_value (company_id (find_all ''td'' row)) = Inr PyNone"
    using assms(2-4) by (simp add: company_id_def id_value_def)
  then show ?thesis
    using assms(1) by (simp add: row_record_unfold Let_def)
qed

theorem empty_segment_gives_null_id_witness:
  "\<not> length (find_all ''td'' (listing (linked [(''href'', ''/company/'')]))) < 8 \<and>
   last (split CHR ''/'' ''/company/'') = [] \<and>
   (\<exists>r. for_rows [listing (linked [(''href'', ''/company/'')])] [] = (None, [r]) \<and>
        map_of r ''id'' = Some PyNone)"
proof -
  let ?row = "listing (linked [(''href'', ''/company/'')])"
  have 1: "\<not> length (find_all ''td'' ?row) < 8"
    by (simp add: cells_listing length_listing_cells)
  have 2: "find_first ''a'' (find_all ''td'' ?row ! 1) =
      Some (Tag ''a'' [(''href'', ''/company/'')] [Text '' Nabil Bank Limited ''])"
    by (simp add: cells_listing nth_listing_cells find_first_linked)
  have 3: "get_attr (Tag ''a'' [(''href'', ''/company/'')] [Text '' Nabil Bank Limited ''])
      ''href'' = Some ''/company/''"
    by simp
  have 4: "last (split CHR ''/'' ''/company/'') = []"
    by simp
  show ?thesis
    using 1 4 empty_segment_gives_null_id [OF 1 2 3 4] by blast
qed

text \<open>
  C6. For a row with exactly eight cells that yields a record, the string fields are
  the stripped texts of the cells 1 to 7 in the documented positions, with cell 1 under
  both \<^verbatim>\<open>companyName\<close> and \<^verbatim>\<open>securityName\<close>, and
  \<^verbatim>\<open>regulatoryBody\<close> is \<open>get_regulatory_body\<close> of the sector name.
\<close>

theorem record_fields:
  assumes "cols = find_all ''td'' row"
    and "length cols = 8"
    and "for_rows [row] [] = (None, [r])"
  shows "map_of r ''companyName'' = Some (PyStr (get_text (cols ! 1))) \<and>
         map_of r ''securityName'' = Some (PyStr (get_text (cols ! 1))) \<and>
         map_of r ''symbol'' = Some (PyStr (get_text (cols ! 2))) \<and>
         map_of r ''status'' = Some (PyStr (get_text (cols ! 3))) \<and>
         map_of r ''sectorName'' = Some (PyStr (get_text (cols ! 4))) \<and>
         map_of r ''instrumentType'' = Some (PyStr (get_text (cols ! 5))) \<and>
         map_of r ''companyEmail'' = Some (PyStr (get_text (cols ! 6))) \<and>
         map_of r ''website'' = Some (PyStr (get_text (cols ! 7))) \<and>
         map_of r ''securityName'' = map_of r ''companyName'' \<and>
         map_of r ''regulatoryBody'' =
           Some (PyStr (get_regulatory_body (get_text (cols ! 4)))) \<and>
         map fst r =
           [''id'', ''companyName'', ''symbol'', ''securityName'', ''status'', ''sectorName'',
            ''instrumentType'', ''companyEmail'', ''website'', ''regulatoryBody'']"
proof -
  have "row_record cols = Inr r"
    using assms by (simp split: sum.splits)
  then show ?thesis
    by (auto simp: row_record_unfold split: sum.splits)
qed

theorem record_fields_witness:
  "length (listing_cells (linked [(''href'', ''/company/482'')])) = 8 \<and>
   for_rows [listing (linked [(''href'', ''/company/482'')])] [] = (None, [nabil (PyInt 482)]) \<and>
   map_of (nabil (PyInt 482)) ''companyName'' = Some (PyStr ''Nabil Bank Limited'') \<and>
   map_of (nabil (PyInt 482)) ''securityName'' = Some (PyStr ''Nabil Bank Limited'') \<and>
   map_of (nabil (PyInt 482)) ''symbol'' = Some (PyStr ''NABIL'') \<and>
   map_of (nabil (PyInt 482)) ''website'' = Some (PyStr ''www.nabilbank.com'') \<and>
   map_of (nabil (PyInt 482)) ''regulatoryBody'' = Some (PyStr ''SEBON'')"
proof -
  let ?attrs = "[(''href'', ''/company/482'')]"
  have 1: "listing_cells (linked ?attrs) = find_all ''td'' (listing (linked ?attrs))"
    by (simp add: cells_listing)
  have 2: "length (listing_cells (linked ?attrs)) = 8"
    by (rule length_listing_cells)
  have 3: "for_rows [listing (linked ?attrs)] [] = (None, [nabil (PyInt 482)])"
    by (simp only: sample_rows sum.case append.simps)
  show ?thesis
    using 2 3 record_fields [OF 1 2 3]
    by (simp add: nth_listing_cells get_text_linked get_text_cell get_regulatory_body_def)
qed

text \<open>
  C3, as the code has it. A row with fewer than eight cells is skipped, and a row with
  at least eight cells whose id is absent, empty or an integer literal gives a record;
  in both cases nothing is raised and the loop goes on with the next row.
\<close>

theorem row_is_record_or_skip:
  "(length (find_all ''td'' row) < 8 \<longrightarrow> for_rows (row # rows) cs = for_rows rows cs) \<and>
   (\<not> length (find_all ''td'' row) < 8 \<and> id_parses (find_all ''td'' row) \<longrightarrow>
      (\<exists>r. row_record (find_all ''td'' row) = Inr r \<and>
           for_rows (row # rows) cs = for_rows rows (cs @ [r])))"
proof (intro conjI impI)
  assume "length (find_all ''td'' row) < 8"
  then show "for_rows (row # rows) cs = for_rows rows cs"
    by simp
next
  assume a: "\<not> length (find_all ''td'' row) < 8 \<and> id_parses (find_all ''td'' row)"
  then obtain r where "row_record (find_all ''td'' row) = Inr r"
    using id_parses_record by blast
  then show "\<exists>r. row_record (find_all ''td'' row) = Inr r \<and>
      for_rows (row # rows) cs = for_rows rows (cs @ [r])"
    using a by simp
qed

theorem row_is_record_or_skip_witness:
  "length (find_all ''td'' short_row) < 8 \<and>
   for_rows [short_row, listing unlinked] [] = for_rows [listing unlinked] [] \<and>
   \<not> length (find_all ''td'' (listing (linked [(''href'', ''/company/482'')]))) < 8 \<and>
   id_parses (find_all ''td'' (listing (linked [(''href'', ''/company/482'')]))) \<and>
   (\<exists>r. row_record (find_all ''td'' (listing (linked [(''href'', ''/company/482'')]))) = Inr r \<and>
        for_rows [listing (linked [(''href'', ''/company/482'')]), listing unlinked] [] =
          for_rows [listing unlinked] ([] @ [r]))"
proof -
  let ?row = "listing (linked [(''href'', ''/company/482'')])"
  have 1: "length (find_all ''td'' short_row) < 8"
    by (simp add: cells_short_row)
  have 2: "\<not> length (find_all ''td'' ?row) < 8"
    by (simp add: cells_listing length_listing_cells)
  have 3: "id_parses (find_all ''td'' ?row)"
    by (simp add: cells_listing id_parses_def company_id_listing int_of_str_482)
  show ?thesis
    using 1 2 3
      row_is_record_or_skip [of short_row "[listing unlinked]" "[]"]
      row_is_record_or_skip [of ?row "[listing unlinked]" "[]"]
    by blast
qed

text \<open>
  C3 as stated fails: a row with eight cells whose link ends in a piece that is not a
  number makes \<^verbatim>\<open>int\<close> raise, the exception leaves the loop over the rows, and
  the row after it is never extracted.
\<close>

theorem row_raises_counterexample:
  "for_rows [listing (linked [(''href'', ''/company/abc'')]),
             listing (linked [(''href'', ''/company/482'')])] [] = (Some ValueError, [])"
  by (simp only: sample_rows sum.case append.simps)

text \<open>
  C4, as the code has it. When every row with at least eight cells has an id that is
  absent, empty or an integer literal, a page with \<open>N\<close> such rows and \<open>M\<close> rows
  with fewer cells yields exactly \<open>N\<close> records, one for each of the \<open>N\<close> rows
  and in their order; the \<open>M\<close> short rows add nothing and raise nothing.
\<close>

theorem page_yields_one_record_per_wide_row:
  assumes "\<forall>row\<in>set rows. wide row \<longrightarrow> id_parses (find_all ''td'' row)"
    and "length (filter wide rows) = N"
    and "length (filter (\<lambda>row. \<not> wide row) rows) = M"
  shows "fst (for_rows rows []) = None \<and>
         length (snd (for_rows rows [])) = N \<and>
         length (snd (for_rows rows [])) + M = length rows \<and>
         map Inr (snd (for_rows rows [])) =
           map (\<lambda>row. row_record (find_all ''td'' row)) (filter wide rows) \<and>
         for_rows rows [] = for_rows (filter wide rows) []"
proof -
  have 1: "fst (for_rows rows []) = None"
    and 2: "map Inr (snd (for_rows rows [])) =
      map (\<lambda>row. row_record (find_all ''td'' row)) (filter wide rows)"
    using for_rows_parses [OF assms(1), of "[]"] by simp_all
  have "length (map Inr (snd (for_rows rows [])) :: (exn + company) list) = N"
    unfolding 2 using assms(2) by simp
  then have 3: "length (snd (for_rows rows [])) = N"
    by simp
  have "length rows = N + M"
    using assms(2,3) sum_length_filter_compl [of wide rows] by simp
  then show ?thesis
    using 1 2 3 for_rows_filter [of rows "[]"] by simp
qed

theorem page_yields_one_record_per_wide_row_witness:
  "id_parses (find_all ''td'' (listing (linked [(''href'', ''/company/482'')]))) \<and>
   id_parses (find_all ''td'' (listing unlinked)) \<and>
   length (filter wide [listing (linked [(''href'', ''/company/482'')]), short_row,
     listing unlinked]) = 2 \<and>
   length (filter (\<lambda>row. \<not> wide row) [listing (linked [(''href'', ''/company/482'')]),
     short_row, listing unlinked]) = 1 \<and>
   for_rows [listing (linked [(''href'', ''/company/482'')]), short_row, listing unlinked] [] =
     (None, [nabil (PyInt 482), nabil PyNone])"
proof -
  let ?rows = "[listing (linked [(''href'', ''/company/482'')]), short_row, listing unlinked]"
  have 1: "\<forall>row\<in>set ?rows. wide row \<longrightarrow> id_parses (find_all ''td'' row)"
    by (simp add: wide_listing cells_listing cells_listing_unlinked id_parses_def
        company_id_listing company_id_unlinked int_of_str_482)
  have 2: "length (filter wide ?rows) = 2"
    by (simp add: wide_listing)
  have 3: "length (filter (\<lambda>row. \<not> wide row) ?rows) = 1"
    by (simp add: wide_listing)
  have 4: "for_rows ?rows [] = (None, [nabil (PyInt 482), nabil PyNone])"
    by (simp only: sample_rows sum.case append.simps)
  have 5: "id_parses (find_all ''td'' (listing (linked [(''href'', ''/company/482'')])))"
    "id_parses (find_all ''td'' (listing unlinked))"
    using 1 by (simp_all add: wide_listing)
  show ?thesis
    using 2 3 4 5 page_yields_one_record_per_wide_row [OF 1 2 3] by simp
qed

text \<open>
  C4 as stated fails: a page with one row of eight cells and one short row yields no
  record but \<open>ValueError\<close> when the link of the first ends in a piece that is not a
  number.
\<close>

theorem page_record_count_counterexample:
  "length (filter wide [listing (linked [(''href'', ''/company/abc'')]), short_row]) = 1 \<and>
   length (filter (\<lambda>row. \<not> wide row) [listing (linked [(''href'', ''/company/abc'')]), short_row]) = 1 \<and>
   for_rows [listing (linked [(''href'', ''/company/abc'')]), short_row] [] =
     (Some ValueError, [])"
proof -
  have "for_rows [listing (linked [(''href'', ''/company/abc'')]), short_row] [] =
      (Some ValueError, [])"
    by (simp only: sample_rows sum.case append.simps)
  then show ?thesis
    by (simp add: wide_listing)
qed

section \<open>The loop over the pages\<close>

lemma extracted_rows:
  assumes "extracted v"
  obtains soup where "table_wait v = None" and "page_source v = Inr soup"
    and "for_rows (select_tbody_tr soup) cs = (None, cs @ records_of v)"
proof -
  from assms obtain soup where 1: "table_wait v = None" and 2: "page_source v = Inr soup"
    and 3: "fst (for_rows (select_tbody_tr soup) []) = None"
    by (auto simp: extracted_def split: sum.splits)
  have "for_rows (select_tbody_tr soup) cs = (None, cs @ records_of v)"
    using for_rows_acc [of "select_tbody_tr soup" cs] 2 3 by (simp add: records_of_def)
  with 1 2 show ?thesis using that by blast
qed

text \<open>One pass that ends with the click and the pause of three seconds.\<close>

lemma while_true_pass:
  assumes "extracted (view b (page_no s))" and "advanced (view b (page_no s))"
  shows "while_true b s =
    while_true b
      (s\<lparr>companies := companies s @ records_of (view b (page_no s)),
         page_no := page_no s + 1,
         calls := calls s @ pass_calls (page_no s)\<rparr>)"
proof -
  from assms(1) obtain soup where 1: "table_wait (view b (page_no s)) = None"
    and 2: "page_source (view b (page_no s)) = Inr soup"
    and 3: "for_rows (select_tbody_tr soup) (companies s) =
      (None, companies s @ records_of (view b (page_no s)))"
    by (rule extracted_rows)
  from assms(2) have 4: "find_element (view b (page_no s)) = None"
    and 5: "click (view b (page_no s)) = None"
    by (simp_all add: advanced_def)
  show ?thesis
    by (subst while_true.simps)
      (simp add: loop_body_def 1 2 3 4 5 did_def pass_calls_def Let_def)
qed

text \<open>The pass on which the next-page control is not found.\<close>

lemma while_true_last:
  assumes "extracted (view b (page_no s))"
    and "find_element (view b (page_no s)) = Some NoSuchElementException"
  shows "while_true b s =
    Some (None,
      s\<lparr>companies := companies s @ records_of (view b (page_no s)),
        page_no := page_no s + 1,
        calls := calls s @ [WaitTable, PageSource, PrintScraped (page_no s), FindElement]\<rparr>)"
proof -
  from assms(1) obtain soup where 1: "table_wait (view b (page_no s)) = None"
    and 2: "page_source (view b (page_no s)) = Inr soup"
    and 3: "for_rows (select_tbody_tr soup) (companies s) =
      (None, companies s @ records_of (view b (page_no s)))"
    by (rule extracted_rows)
  show ?thesis
    by (subst while_true.simps)
      (simp add: loop_body_def 1 2 3 assms(2) did_def Let_def except_no_such_element_def
        handled_def)
qed

text \<open>The pass on which the wait for the table times out.\<close>

lemma while_true_timeout:
  assumes "table_wait (view b (page_no s)) = Some TimeoutException"
  shows "while_true b s = Some (None, s\<lparr>calls := calls s @ [WaitTable]\<rparr>)"
  by (subst while_true.simps)
    (simp add: loop_body_def assms did_def Let_def except_timeout_def handled_def)

text \<open>\<open>k\<close> passes in a row, each ending with the click.\<close>

lemma while_true_passes:
  assumes "\<forall>i. page_no s \<le> i \<and> i < page_no s + k \<longrightarrow>
      extracted (view b i) \<and> advanced (view b i)"
  shows "while_true b s =
    while_true b
      (s\<lparr>companies :=
           companies s @ concat (map (\<lambda>i. records_of (view b i)) [page_no s..<page_no s + k]),
         page_no := page_no s + k,
         calls := calls s @ concat (map pass_calls [page_no s..<page_no s + k])\<rparr>)"
  using assms
proof (induction k arbitrary: s)
  case 0
  then show ?case by simp
next
  case (Suc k)
  let ?s = "s\<lparr>companies := companies s @ records_of (view b (page_no s)),
    page_no := page_no s + 1, calls := calls s @ pass_calls (page_no s)\<rparr>"
  have 1: "while_true b s = while_true b ?s"
    using Suc.prems by (intro while_true_pass) simp_all
  have 2: "\<forall>i. page_no ?s \<le> i \<and> i < page_no ?s + k \<longrightarrow>
      extracted (view b i) \<and> advanced (view b i)"
    using Suc.prems by simp
  have 3: "[page_no s..<page_no s + Suc k] = page_no s # [page_no ?s..<page_no ?s + k]"
    by (simp add: upt_conv_Cons)
  show ?case
    unfolding 1 Suc.IH [OF 2] 3 by simp
qed

section \<open>What every pass keeps\<close>

lemmas while_true_induct = while_true.raw_induct [rotated 1, consumes 1, case_names step]

lemma pred_pass_handled: "P s \<Longrightarrow> pred_pass P (handled h s)"
  by (simp add: handled_def split: option.splits)

lemma loop_body_records:
  assumes "list_all is_record (companies s)"
  shows "pred_pass (\<lambda>s'. list_all is_record (companies s')) (loop_body b s)"
proof -
  have "list_all is_record (snd (for_rows rows (companies s)))" for rows
    using assms by (rule for_rows_records)
  then have "for_rows rows (companies s) = (x, cs) \<Longrightarrow> list_all is_record cs" for rows x cs
    by (metis snd_conv)
  then show ?thesis
    using assms
    by (auto simp: loop_body_def Let_def did_def intro!: pred_pass_handled
        split: option.splits sum.splits prod.splits)
qed

lemma loop_body_quits: "pred_pass (\<lambda>s'. quits (calls s') = quits (calls s)) (loop_body b s)"
  by (auto simp: loop_body_def Let_def did_def quits_def intro!: pred_pass_handled
      split: option.splits sum.splits prod.splits)

lemma loop_body_view: "view b' = view b \<Longrightarrow> loop_body b' s = loop_body b s"
  by (simp add: loop_body_def)

text \<open>Whatever way the loop ends, it has only added records with a valid id.\<close>

lemma while_true_records:
  "while_true b s = Some y \<Longrightarrow> list_all is_record (companies s) \<Longrightarrow>
   list_all is_record (companies (snd y))"
proof (induction rule: while_true_induct)
  case (step loop b s y)
  show ?case
    using step.hyps step.IH loop_body_records [OF step.prems, of b]
    by (cases "loop_body b s") auto
qed

text \<open>The loop never quits the driver.\<close>

lemma while_true_quits: "while_true b s = Some y \<Longrightarrow> quits (calls (snd y)) = quits (calls s)"
proof (induction rule: while_true_induct)
  case (step loop b s y)
  show ?case
    using step.hyps step.IH loop_body_quits [of s b]
    by (cases "loop_body b s") auto
qed

text \<open>The loop asks the browser for its pages only.\<close>

lemma while_true_view_Some:
  "while_true b s = Some y \<Longrightarrow> view b' = view b \<Longrightarrow> while_true b' s = Some y"
proof (induction rule: while_true_induct)
  case (step loop b s y)
  have "loop_body b' s = loop_body b s"
    using step.prems by (rule loop_body_view)
  then show ?case
    using step.hyps step.IH [OF _ step.prems]
    by (subst while_true.simps) (cases "loop_body b s"; simp)
qed

lemma while_true_view:
  assumes "view b' = view b"
  shows "while_true b' s = while_true b s"
proof (cases "while_true b s")
  case (Some y)
  then have "while_true b' s = Some y"
    using assms by (rule while_true_view_Some)
  then show ?thesis
    by (simp only: Some)
next
  case None
  show ?thesis
  proof (cases "while_true b' s")
    case (Some y)
    have "view b = view b'"
      using assms by (rule sym)
    with Some have "while_true b s = Some y"
      by (rule while_true_view_Some)
    then show ?thesis
      using None by (simp only: option.distinct)
  next
    case None
    then show ?thesis
      by (simp only: \<open>while_true b s = None\<close>)
  qed
qed

section \<open>The whole run\<close>

text \<open>
  Once the driver exists, the page is loaded and the page size is set, the run is the
  loop followed by \<^verbatim>\<open>driver.quit()\<close>.
\<close>

lemma get_companies_started:
  assumes "chrome b = None" and "driver_get b = None" and "page_size_wait b = None"
    and "select_by_value b = None"
  shows "get_companies True b =
    (case while_true b \<lparr>companies = [], page_no = 1, calls = setup_calls\<rparr> of
       None \<Rightarrow> None
     | Some (Some e, s) \<Rightarrow>
         Some (case quit b of Some e' \<Rightarrow> Inl e' | None \<Rightarrow> Inl e, calls s @ [Quit])
     | Some (None, s) \<Rightarrow>
         Some (case quit b of Some e' \<Rightarrow> Inl e' | None \<Rightarrow> Inr (companies s),
               calls s @ [PrintFetched (length (companies s)), Quit]))"
  using assms
  by (simp add: get_companies_def init_driver_def try_body_def did_def setup_calls_def
      BASE_URL_def Let_def split: option.splits)

lemma extraction_passes_pass_calls:
  "extraction_passes (concat (map pass_calls is)) = length is"
  by (induction "is") (simp_all add: extraction_passes_def pass_calls_def)

lemma extraction_passes_append:
  "extraction_passes (xs @ ys) = extraction_passes xs + extraction_passes ys"
  by (simp add: extraction_passes_def)

text \<open>The loop from page 1 when the control is there on the pages before \<open>K\<close> only.\<close>

lemma while_true_K_pages:
  assumes "1 \<le> K"
    and "\<forall>i\<in>{1..K}. extracted (view b i)"
    and "\<forall>i\<in>{1..<K}. advanced (view b i)"
    and "find_element (view b K) = Some NoSuchElementException"
  shows "while_true b \<lparr>companies = [], page_no = 1, calls = log\<rparr> =
    Some (None,
      \<lparr>companies = concat (map (\<lambda>i. records_of (view b i)) [1..<Suc K]),
       page_no = Suc K,
       calls = log @ concat (map pass_calls [1..<K]) @
         [WaitTable, PageSource, PrintScraped K, FindElement]\<rparr>)"
proof -
  let ?s = "\<lparr>companies = [], page_no = 1, calls = log\<rparr>"
  let ?t = "\<lparr>companies = concat (map (\<lambda>i. records_of (view b i)) [1..<K]),
    page_no = K, calls = log @ concat (map pass_calls [1..<K])\<rparr>"
  have "\<forall>i. page_no ?s \<le> i \<and> i < page_no ?s + (K - 1) \<longrightarrow>
      extracted (view b i) \<and> advanced (view b i)"
    using assms(1-3) by auto
  from while_true_passes [OF this] have 1: "while_true b ?s = while_true b ?t"
    using assms(1) by simp
  have 2: "extracted (view b (page_no ?t))"
    using assms(1,2) by simp
  have 3: "find_element (view b (page_no ?t)) = Some NoSuchElementException"
    using assms(4) by simp
  have 4: "[1..<Suc K] = [1..<K] @ [K]"
    using assms(1) by simp
  show ?thesis
    unfolding 1 while_true_last [OF 2 3] 4 by simp
qed

text \<open>The loop from page 1 when the table of page \<open>k\<close> does not show in time.\<close>

lemma while_true_stalls:
  assumes "1 \<le> k"
    and "\<forall>i\<in>{1..<k}. extracted (view b i) \<and> advanced (view b i)"
    and "table_wait (view b k) = Some TimeoutException"
  shows "while_true b \<lparr>companies = [], page_no = 1, calls = log\<rparr> =
    Some (None,
      \<lparr>companies = concat (map (\<lambda>i. records_of (view b i)) [1..<k]),
       page_no = k,
       calls = log @ concat (map pass_calls [1..<k]) @ [WaitTable]\<rparr>)"
proof -
  let ?s = "\<lparr>companies = [], page_no = 1, calls = log\<rparr>"
  let ?t = "\<lparr>companies = concat (map (\<lambda>i. records_of (view b i)) [1..<k]),
    page_no = k, calls = log @ concat (map pass_calls [1..<k])\<rparr>"
  have "\<forall>i. page_no ?s \<le> i \<and> i < page_no ?s + (k - 1) \<longrightarrow>
      extracted (view b i) \<and> advanced (view b i)"
    using assms(1,2) by auto
  from while_true_passes [OF this] have 1: "while_true b ?s = while_true b ?t"
    using assms(1) by simp
  have 2: "table_wait (view b (page_no ?t)) = Some TimeoutException"
    using assms(3) by simp
  show ?thesis
    unfolding 1 while_true_timeout [OF 2] by simp
qed

section \<open>The sample sites\<close>

lemma select_sample_rows:
  "select_below True (listing (linked attrs)) = [listing (linked attrs)]"
  "select_below True (listing unlinked) = [listing unlinked]"
  "select_below True short_row = [short_row]"
  by (simp_all add: listing_def listing_cells_def linked_def unlinked_def short_row_def cell_def)

lemma select_page:
  "page_source (page w rows next) = Inr soup \<Longrightarrow>
   select_tbody_tr soup = concat (map (select_below True) rows)"
  by (auto simp: page_def select_tbody_tr_def)

lemma page_fields:
  "table_wait (page w rows next) = w"
  "find_element (page w rows next) = next"
  "click (page w rows next) = None"
  "\<exists>soup. page_source (page w rows next) = Inr soup"
  by (simp_all add: page_def)

lemma extracted_page:
  "extracted (page w rows next) =
     (w = None \<and> fst (for_rows (concat (map (select_below True) rows)) []) = None)"
  using select_page [of w rows "next"] page_fields(4) [of w rows "next"]
  by (auto simp: extracted_def page_fields(1) split: sum.splits)

lemma records_of_page:
  "records_of (page w rows next) = snd (for_rows (concat (map (select_below True) rows)) [])"
  using select_page [of w rows "next"] page_fields(4) [of w rows "next"]
  by (auto simp: records_of_def split: sum.splits)

lemma site_fields:
  "chrome (site pages) = None" "execute_cdp_cmd (site pages) = None"
  "driver_get (site pages) = None" "page_size_wait (site pages) = None"
  "select_by_value (site pages) = None" "view (site pages) = pages" "quit (site pages) = None"
  by (simp_all add: site_def)

lemma two_pages_1:
  "extracted (two_pages 1)" "advanced (two_pages 1)"
  "records_of (two_pages 1) = [nabil (PyInt 482)]"
  by (simp_all add: two_pages_def extracted_page records_of_page select_sample_rows
      sample_rows advanced_def page_fields del: for_rows.simps)

lemma two_pages_2:
  "extracted (two_pages 2)" "find_element (two_pages 2) = Some NoSuchElementException"
  "records_of (two_pages 2) = [nabil PyNone]"
  by (simp_all add: two_pages_def extracted_page records_of_page select_sample_rows
      sample_rows page_fields del: for_rows.simps)

lemma stalled_pages_1:
  "extracted (stalled_pages 1)" "advanced (stalled_pages 1)"
  "records_of (stalled_pages 1) = [nabil (PyInt 482)]"
  by (simp_all add: stalled_pages_def extracted_page records_of_page select_sample_rows
      sample_rows advanced_def page_fields del: for_rows.simps)

lemma stalled_pages_2: "table_wait (stalled_pages 2) = Some TimeoutException"
  by (simp add: stalled_pages_def page_fields)

section \<open>Claims about the run\<close>

text \<open>
  C1, as the code has it. The driver starts, the page loads, the page size is set and
  the driver quits without error. When the pages 1 to \<open>K\<close> show their table and give their
  records (no row of them raises), the next-page control is
  found and clicked on the pages 1 to \<open>K - 1\<close> and is missing on page \<open>K\<close>, then
  \<open>get_companies\<close> returns, after exactly \<open>K\<close> extraction passes, the records of
  the pages 1 to \<open>K\<close> in this order.
\<close>

theorem pagination_ends_on_last_page:
  assumes "chrome b = None" and "driver_get b = None" and "page_size_wait b = None"
    and "select_by_value b = None" and "quit b = None"
    and "1 \<le> K"
    and "\<forall>i\<in>{1..K}. extracted (view b i)"
    and "\<forall>i\<in>{1..<K}. advanced (view b i)"
    and "find_element (view b K) = Some NoSuchElementException"
  shows "\<exists>log. get_companies True b =
           Some (Inr (concat (map (\<lambda>i. records_of (view b i)) [1..<Suc K])), log) \<and>
         extraction_passes log = K"
proof -
  have "extraction_passes (setup_calls @ concat (map pass_calls [1..<K]) @
      [WaitTable, PageSource, PrintScraped K, FindElement] @ [PrintFetched n, Quit]) = K" for n
    using assms(6)
    by (simp add: extraction_passes_append extraction_passes_pass_calls)
      (simp add: extraction_passes_def setup_calls_def)
  then show ?thesis
    unfolding get_companies_started [OF assms(1-4)] while_true_K_pages [OF assms(6-9)]
    by (simp add: assms(5))
qed

theorem pagination_ends_on_last_page_witness:
  "extracted (view (site two_pages) 1) \<and>
   extracted (view (site two_pages) 2) \<and>
   advanced (view (site two_pages) 1) \<and>
   find_element (view (site two_pages) 2) = Some NoSuchElementException \<and>
   (\<exists>log. get_companies True (site two_pages) =
      Some (Inr [nabil (PyInt 482), nabil PyNone], log) \<and> extraction_passes log = 2)"
proof -
  have r: "\<forall>i\<in>{1..2}. extracted (view (site two_pages) i)"
  proof
    fix i :: nat
    assume "i \<in> {1..2}"
    then have "i = 1 \<or> i = 2" by auto
    then show "extracted (view (site two_pages) i)"
      using two_pages_1(1) two_pages_2(1) by (auto simp: site_fields)
  qed
  have a: "\<forall>i\<in>{1..<2}. advanced (view (site two_pages) i)"
  proof
    fix i :: nat
    assume "i \<in> {1..<2}"
    then have "i = 1" by auto
    then show "advanced (view (site two_pages) i)"
      using two_pages_1(2) by (simp add: site_fields)
  qed
  have f: "find_element (view (site two_pages) 2) = Some NoSuchElementException"
    using two_pages_2(2) by (simp add: site_fields)
  have "[1..<Suc 2] = [1, 2]"
    by (simp add: upt_rec)
  then have u: "concat (map (\<lambda>i. records_of (view (site two_pages) i)) [1..<Suc 2]) =
      [nabil (PyInt 482), nabil PyNone]"
    by (simp add: site_fields two_pages_1 [unfolded One_nat_def] two_pages_2)
  have "\<exists>log. get_companies True (site two_pages) =
      Some (Inr [nabil (PyInt 482), nabil PyNone], log) \<and> extraction_passes log = 2"
    using pagination_ends_on_last_page [OF site_fields(1) site_fields(3) site_fields(4)
        site_fields(5) site_fields(7) _ r a f]
    unfolding u by simp
  then show ?thesis
    using r a f by simp
qed

text \<open>
  C2, as the code has it. The driver starts, the page loads, the page size is set and
  the driver quits without error. When the pages before page \<open>k\<close> are extracted and
  left by a click on the control, and the wait for the table of page \<open>k\<close> times out,
  then \<open>get_companies\<close> returns the records of the pages before \<open>k\<close> and raises
  nothing; for \<open>k = 2\<close> these are the records of page 1.
\<close>

theorem table_timeout_returns_collected:
  assumes "chrome b = None" and "driver_get b = None" and "page_size_wait b = None"
    and "select_by_value b = None" and "quit b = None"
    and "1 \<le> k"
    and "\<forall>i\<in>{1..<k}. extracted (view b i) \<and> advanced (view b i)"
    and "table_wait (view b k) = Some TimeoutException"
  shows "\<exists>log. get_companies True b =
           Some (Inr (concat (map (\<lambda>i. records_of (view b i)) [1..<k])), log)"
  unfolding get_companies_started [OF assms(1-4)] while_true_stalls [OF assms(6-8)]
  by (simp add: assms(5))

theorem table_timeout_returns_collected_witness:
  "extracted (view (site stalled_pages) 1) \<and>
   advanced (view (site stalled_pages) 1) \<and>
   table_wait (view (site stalled_pages) 2) = Some TimeoutException \<and>
   records_of (view (site stalled_pages) 1) = [nabil (PyInt 482)] \<and>
   (\<exists>log. get_companies True (site stalled_pages) = Some (Inr [nabil (PyInt 482)], log))"
proof -
  have a: "\<forall>i\<in>{1..<2}. extracted (view (site stalled_pages) i) \<and>
      advanced (view (site stalled_pages) i)"
  proof
    fix i :: nat
    assume "i \<in> {1..<2}"
    then have "i = 1" by auto
    then show "extracted (view (site stalled_pages) i) \<and> advanced (view (site stalled_pages) i)"
      using stalled_pages_1(1,2) by (simp add: site_fields)
  qed
  have t: "table_wait (view (site stalled_pages) 2) = Some TimeoutException"
    using stalled_pages_2 by (simp add: site_fields)
  have p: "records_of (view (site stalled_pages) 1) = [nabil (PyInt 482)]"
    using stalled_pages_1(3) by (simp add: site_fields)
  have "[1..<2] = [1::nat]"
    by (simp add: upt_rec)
  then have u: "concat (map (\<lambda>i. records_of (view (site stalled_pages) i)) [1..<2]) =
      [nabil (PyInt 482)]"
    using p by simp
  have "\<exists>log. get_companies True (site stalled_pages) = Some (Inr [nabil (PyInt 482)], log)"
    using table_timeout_returns_collected [OF site_fields(1) site_fields(3) site_fields(4)
        site_fields(5) site_fields(7) _ a t]
    unfolding u by simp
  then show ?thesis
    using a t p by simp
qed

text \<open>
  C2 as stated fails for the wait of line 102: it stands outside the
  \<^verbatim>\<open>try\<close> of the loop, so when the page-size dropdown does not show in time the
  \<open>TimeoutException\<close> reaches the caller, after \<^verbatim>\<open>driver.quit()\<close>.
\<close>

theorem dropdown_timeout_counterexample:
  "get_companies True ((site two_pages)\<lparr>page_size_wait := Some TimeoutException\<rparr>) =
     Some (Inl TimeoutException,
           [NewChrome, ExecuteCdpCmd, DriverGet ''https://nepalstock.com/company'',
            WaitPageSize, Quit])"
  by (simp add: get_companies_def init_driver_def try_body_def did_def site_def BASE_URL_def)

section \<open>The driver is quit once\<close>

lemma try_body_quits:
  assumes "try_body b s = Some (r, s')"
  shows "quits (calls s') = quits (calls s)"
proof -
  have "while_true b t = Some (x, t') \<Longrightarrow> quits (calls t') = quits (calls t)" for t x t'
    using while_true_quits [of b t "(x, t')"] by simp
  then show ?thesis
    using assms
    by (fastforce simp: try_body_def Let_def did_def quits_def
        split: option.splits prod.splits)
qed

lemma try_body_records:
  assumes "try_body b s = Some (Inr rs, s')" and "list_all is_record (companies s)"
  shows "list_all is_record rs"
proof -
  have "while_true b t = Some (x, t') \<Longrightarrow> list_all is_record (companies t) \<Longrightarrow>
      list_all is_record (companies t')" for t x t'
    using while_true_records [of b t "(x, t')"] by simp
  then show ?thesis
    using assms
    by (fastforce simp: try_body_def Let_def did_def split: option.splits prod.splits)
qed

lemma try_body_cdp:
  "try_body (b\<lparr>execute_cdp_cmd := x\<rparr>) s = try_body b s"
proof -
  have "while_true (b\<lparr>execute_cdp_cmd := x\<rparr>) t = while_true b t" for t
    by (rule while_true_view) simp
  then show ?thesis
    by (simp add: try_body_def Let_def split: option.splits)
qed

lemma init_driver_cdp:
  "init_driver (b\<lparr>execute_cdp_cmd := x\<rparr>) = init_driver (b\<lparr>execute_cdp_cmd := None\<rparr>)"
  by (simp add: init_driver_def split: option.splits)

text \<open>The pass on which a row makes \<^verbatim>\<open>int\<close> raise.\<close>

lemma while_true_row_error:
  assumes "table_wait (view b (page_no s)) = None"
    and "page_source (view b (page_no s)) = Inr soup"
    and "for_rows (select_tbody_tr soup) (companies s) = (Some ValueError, cs)"
  shows "while_true b s =
    Some (Some ValueError, s\<lparr>companies := cs, calls := calls s @ [WaitTable, PageSource]\<rparr>)"
  by (subst while_true.simps)
    (simp add: loop_body_def assms did_def Let_def except_timeout_def handled_def)

lemma bad_link_run:
  "get_companies True (site bad_link_pages) =
     Some (Inl ValueError, setup_calls @ [WaitTable, PageSource, Quit])"
proof -
  obtain soup where 1: "page_source (bad_link_pages 1) = Inr soup"
    unfolding bad_link_pages_def using page_fields(4) by blast
  then have "select_tbody_tr soup = concat (map (select_below True)
      [listing (linked [(''href'', ''/company/abc'')]), short_row])"
    unfolding bad_link_pages_def by (rule select_page)
  then have 2: "for_rows (select_tbody_tr soup) [] = (Some ValueError, [])"
    by (simp add: select_sample_rows sample_rows del: for_rows.simps)
  have 3: "table_wait (bad_link_pages 1) = None"
    by (simp add: bad_link_pages_def page_fields)
  have "while_true (site bad_link_pages) \<lparr>companies = [], page_no = 1, calls = setup_calls\<rparr> =
      Some (Some ValueError,
        \<lparr>companies = [], page_no = 1, calls = setup_calls @ [WaitTable, PageSource]\<rparr>)"
    using while_true_row_error [of "site bad_link_pages"
        "\<lparr>companies = [], page_no = 1, calls = setup_calls\<rparr>" soup "[]"] 1 2 3
    by (simp add: site_fields)
  then show ?thesis
    unfolding get_companies_started [OF site_fields(1) site_fields(3) site_fields(4)
        site_fields(5)]
    by (simp add: site_fields)
qed

text \<open>
  C1 as stated fails already for one page. The table of page 1 shows and the next-page
  control is missing on it, so \<open>K = 1\<close>; but a link of the page ends in a piece that
  is not a number, and after the one extraction pass the caller gets
  \<open>ValueError\<close> and no list.
\<close>

theorem pagination_raises_counterexample:
  "table_wait (view (site bad_link_pages) 1) = None \<and>
   find_element (view (site bad_link_pages) 1) = Some NoSuchElementException \<and>
   get_companies True (site bad_link_pages) =
     Some (Inl ValueError, setup_calls @ [WaitTable, PageSource, Quit]) \<and>
   extraction_passes (setup_calls @ [WaitTable, PageSource, Quit]) = 1"
  by (simp add: bad_link_run site_fields bad_link_pages_def page_fields extraction_passes_def
      setup_calls_def)

lemma two_pages_loop:
  assumes "view b = two_pages"
  shows "while_true b \<lparr>companies = [], page_no = 1, calls = log\<rparr> =
    Some (None,
      \<lparr>companies = [nabil (PyInt 482), nabil PyNone],
       page_no = 3,
       calls = log @ pass_calls 1 @ [WaitTable, PageSource, PrintScraped 2, FindElement]\<rparr>)"
proof -
  have r: "\<forall>i\<in>{1..2}. extracted (view b i)"
  proof
    fix i :: nat
    assume "i \<in> {1..2}"
    then have "i = 1 \<or> i = 2" by auto
    then show "extracted (view b i)"
      using two_pages_1(1) two_pages_2(1) assms by auto
  qed
  have a: "\<forall>i\<in>{1..<2}. advanced (view b i)"
  proof
    fix i :: nat
    assume "i \<in> {1..<2}"
    then have "i = 1" by auto
    then show "advanced (view b i)"
      using two_pages_1(2) assms by simp
  qed
  have f: "find_element (view b 2) = Some NoSuchElementException"
    using two_pages_2(2) assms by simp
  have u: "[1..<Suc 2] = [1, 2]" "[1..<2] = [1::nat]"
    by (simp_all add: upt_rec)
  have "concat (map (\<lambda>i. records_of (view b i)) [1, 2]) = [nabil (PyInt 482), nabil PyNone]"
    using two_pages_1(3) two_pages_2(3) assms by simp
  then show ?thesis
    using while_true_K_pages [OF _ r a f, of log] unfolding u by simp
qed

lemma two_pages_run:
  assumes "chrome b = None" and "driver_get b = None" and "page_size_wait b = None"
    and "select_by_value b = None" and "view b = two_pages"
  shows "get_companies True b =
    Some (case quit b of
            Some e \<Rightarrow> Inl e
          | None \<Rightarrow> Inr [nabil (PyInt 482), nabil PyNone],
          setup_calls @ pass_calls 1 @
            [WaitTable, PageSource, PrintScraped 2, FindElement, PrintFetched 2, Quit])"
  unfolding get_companies_started [OF assms(1-4)] two_pages_loop [OF assms(5)]
  by (simp split: option.splits)

lemma quits_sample_logs:
  "quits (setup_calls @ [WaitTable, PageSource, Quit]) = 1"
  "quits (setup_calls @ pass_calls 1 @
     [WaitTable, PageSource, PrintScraped 2, FindElement, PrintFetched 2, Quit]) = 1"
  by (simp_all add: quits_def setup_calls_def pass_calls_def)

text \<open>
  C7, as the code has it. Once \<^verbatim>\<open>webdriver.Chrome\<close> has returned a driver,
  every way out of \<open>get_companies\<close>, with a list or with an exception, has called
  \<^verbatim>\<open>driver.quit()\<close> exactly once, as its last call; and an exception of
  \<^verbatim>\<open>execute_cdp_cmd\<close>, the call that hides the automation flag, changes nothing
  in the run.
\<close>

theorem driver_quit_exactly_once:
  "(chrome b = None \<and> get_companies True b = Some (r, log) \<longrightarrow>
      quits log = 1 \<and> last log = Quit) \<and>
   get_companies pull_latest (b\<lparr>execute_cdp_cmd := Some e\<rparr>) =
     get_companies pull_latest (b\<lparr>execute_cdp_cmd := None\<rparr>)"
proof (intro conjI impI)
  assume a: "chrome b = None \<and> get_companies True b = Some (r, log)"
  let ?s = "\<lparr>companies = [], page_no = 1, calls = [NewChrome, ExecuteCdpCmd]\<rparr>"
  from a obtain r' s' where t: "try_body b ?s = Some (r', s')" and l: "log = calls s' @ [Quit]"
    by (auto simp: get_companies_def init_driver_def split: option.splits)
  have "quits (calls s') = 0"
    using try_body_quits [OF t] by (simp add: quits_def)
  then show "quits log = 1" and "last log = Quit"
    using l by (simp_all add: quits_def)
next
  show "get_companies pull_latest (b\<lparr>execute_cdp_cmd := Some e\<rparr>) =
      get_companies pull_latest (b\<lparr>execute_cdp_cmd := None\<rparr>)"
    by (cases "chrome b")
      (simp_all add: get_companies_def try_body_cdp init_driver_def split: option.splits)
qed

theorem driver_quit_exactly_once_witness:
  "chrome (site bad_link_pages) = None \<and>
   get_companies True (site bad_link_pages) =
     Some (Inl ValueError, setup_calls @ [WaitTable, PageSource, Quit]) \<and>
   quits (setup_calls @ [WaitTable, PageSource, Quit]) = 1 \<and>
   last (setup_calls @ [WaitTable, PageSource, Quit]) = Quit \<and>
   get_companies True ((site two_pages)\<lparr>execute_cdp_cmd := Some WebDriverException\<rparr>) =
     get_companies True ((site two_pages)\<lparr>execute_cdp_cmd := None\<rparr>)"
  using driver_quit_exactly_once [of "site bad_link_pages" "Inl ValueError"
      "setup_calls @ [WaitTable, PageSource, Quit]" True WebDriverException]
    driver_quit_exactly_once [of "site two_pages" "Inl ValueError" "[]" True WebDriverException]
    bad_link_run site_fields(1)
  by simp

text \<open>
  C7 as stated fails for the last call: \<^verbatim>\<open>driver.quit()\<close> stands bare in the
  \<^verbatim>\<open>finally\<close> of line 165, so an exception it raises replaces the list that the
  run had collected and reaches the caller.
\<close>

theorem quit_failure_counterexample:
  "get_companies True ((site two_pages)\<lparr>quit := Some WebDriverException\<rparr>) =
     Some (Inl WebDriverException,
           setup_calls @ pass_calls 1 @
             [WaitTable, PageSource, PrintScraped 2, FindElement, PrintFetched 2, Quit])"
  by (simp add: two_pages_run site_def)

lemma id_valid_cases:
  "id_valid r \<Longrightarrow> map_of r ''id'' = Some PyNone \<or> (\<exists>n. map_of r ''id'' = Some (PyInt n))"
  by (auto simp: id_valid_def split: option.splits pyval.splits)

lemma get_companies_records:
  assumes "get_companies pull_latest b = Some (Inr rs, log)"
  shows "list_all is_record rs"
proof (cases pull_latest)
  case False
  then show ?thesis using assms by (simp add: get_companies_def)
next
  case True
  let ?s = "\<lparr>companies = [], page_no = 1, calls = snd (init_driver b)\<rparr>"
  from assms True obtain s' where "try_body b ?s = Some (Inr rs, s')"
    by (auto simp: get_companies_def split: option.splits prod.splits)
  then show ?thesis
    by (rule try_body_records) simp
qed

text \<open>
  C5. For a row with at least eight cells: a link whose \<^verbatim>\<open>href\<close> ends in
  \<^verbatim>\<open>/company/482\<close> gives a record with the id 482; a name cell without a
  link, or a link without \<^verbatim>\<open>href\<close>, gives a record with the id
  \<^verbatim>\<open>None\<close>; a record made from a link whose \<^verbatim>\<open>href\<close> has a non-empty
  last piece has the integer that \<^verbatim>\<open>int\<close> reads from that piece as its id. And
  in every record of a list that \<open>get_companies\<close> returns the id is an integer or
  \<^verbatim>\<open>None\<close>.
\<close>

theorem record_id_from_href:
  "(\<not> length (find_all ''td'' row) < 8 \<and>
    find_first ''a'' (find_all ''td'' row ! 1) = Some link \<and>
    get_attr link ''href'' = Some (p @ ''/company/482'') \<longrightarrow>
      (\<exists>r. for_rows [row] [] = (None, [r]) \<and> map_of r ''id'' = Some (PyInt 482))) \<and>
   (\<not> length (find_all ''td'' row) < 8 \<and>
    (find_first ''a'' (find_all ''td'' row ! 1) = None \<or>
     find_first ''a'' (find_all ''td'' row ! 1) = Some link \<and> get_attr link ''href'' = None) \<longrightarrow>
      (\<exists>r. for_rows [row] [] = (None, [r]) \<and> map_of r ''id'' = Some PyNone)) \<and>
   (\<not> length (find_all ''td'' row) < 8 \<and>
    find_first ''a'' (find_all ''td'' row ! 1) = Some link \<and>
    get_attr link ''href'' = Some href \<and>
    last (split CHR ''/'' href) \<noteq> [] \<and>
    for_rows [row] [] = (None, [r]) \<longrightarrow>
      (\<exists>n. int_of_str (last (split CHR ''/'' href)) = Inr n \<and>
           map_of r ''id'' = Some (PyInt n))) \<and>
   (get_companies pull_latest b = Some (Inr rs, log) \<longrightarrow>
      (\<forall>r\<in>set rs. map_of r ''id'' = Some PyNone \<or> (\<exists>n. map_of r ''id'' = Some (PyInt n))))"
proof (intro conjI impI)
  let ?cols = "find_all ''td'' row"
  {
    assume a: "\<not> length ?cols < 8 \<and> find_first ''a'' (?cols ! 1) = Some link \<and>
      get_attr link ''href'' = Some (p @ ''/company/482'')"
    have "last (split CHR ''/'' (p @ ''/company/482'')) = ''482''"
      using last_split_suffix [of "CHR ''/''" "''482''" "p @ ''/company''"] by simp
    then have "id_value (company_id ?cols) = Inr (PyInt 482)"
      using a by (simp add: company_id_def id_value_def int_of_str_482)
    then show "\<exists>r. for_rows [row] [] = (None, [r]) \<and> map_of r ''id'' = Some (PyInt 482)"
      using a by (simp add: row_record_unfold Let_def)
  }
  {
    assume a: "\<not> length ?cols < 8 \<and> (find_first ''a'' (?cols ! 1) = None \<or>
      find_first ''a'' (?cols ! 1) = Some link \<and> get_attr link ''href'' = None)"
    then have "id_value (company_id ?cols) = Inr PyNone"
      by (auto simp: company_id_def id_value_def)
    then show "\<exists>r. for_rows [row] [] = (None, [r]) \<and> map_of r ''id'' = Some PyNone"
      using a by (simp add: row_record_unfold Let_def)
  }
  {
    assume a: "\<not> length ?cols < 8 \<and> find_first ''a'' (?cols ! 1) = Some link \<and>
      get_attr link ''href'' = Some href \<and> last (split CHR ''/'' href) \<noteq> [] \<and>
      for_rows [row] [] = (None, [r])"
    then have h: "href \<noteq> []"
      by auto
    have c: "company_id ?cols = Some (last (split CHR ''/'' href))"
      using a h by (simp add: company_id_def)
    have rr: "row_record ?cols = Inr r"
      using a by (auto simp: Let_def split: sum.splits)
    then obtain i where i: "id_value (company_id ?cols) = Inr i" and m: "map_of r ''id'' = Some i"
      by (auto simp: row_record_unfold split: sum.splits)
    from i c a obtain n where "int_of_str (last (split CHR ''/'' href)) = Inr n" and "i = PyInt n"
      by (auto simp: id_value_def split: sum.splits)
    then show "\<exists>n. int_of_str (last (split CHR ''/'' href)) = Inr n \<and>
        map_of r ''id'' = Some (PyInt n)"
      using m by simp
  }
  {
    assume "get_companies pull_latest b = Some (Inr rs, log)"
    then have "list_all is_record rs"
      by (rule get_companies_records)
    then have "list_all id_valid rs"
      by (simp add: list_all_iff is_record_def)
    then show "\<forall>r\<in>set rs. map_of r ''id'' = Some PyNone \<or>
        (\<exists>n. map_of r ''id'' = Some (PyInt n))"
      by (auto simp: list_all_iff dest: id_valid_cases)
  }
qed


theorem record_id_from_href_witness:
  "(\<exists>r. for_rows [listing (linked [(''href'', ''/company/482'')])] [] = (None, [r]) \<and>
        map_of r ''id'' = Some (PyInt 482)) \<and>
   (\<exists>r. for_rows [listing unlinked] [] = (None, [r]) \<and> map_of r ''id'' = Some PyNone) \<and>
   (\<exists>r. for_rows [listing (linked [])] [] = (None, [r]) \<and> map_of r ''id'' = Some PyNone) \<and>
   (\<exists>n. int_of_str (last (split CHR ''/'' ''/company/482'')) = Inr n \<and>
        map_of (nabil (PyInt 482)) ''id'' = Some (PyInt n)) \<and>
   (map_of (nabil (PyInt 482)) ''id'' = Some PyNone \<or>
    (\<exists>n. map_of (nabil (PyInt 482)) ''id'' = Some (PyInt n))) \<and>
   (map_of (nabil PyNone) ''id'' = Some PyNone \<or>
    (\<exists>n. map_of (nabil PyNone) ''id'' = Some (PyInt n)))"
proof -
  let ?a = "[(''href'', ''/company/482'')]"
  let ?link = "\<lambda>attrs. Tag ''a'' attrs [Text '' Nabil Bank Limited '']"
  have w: "\<not> length (find_all ''td'' (listing (linked attrs))) < 8" for attrs
    by (simp add: cells_listing length_listing_cells)
  have w': "\<not> length (find_all ''td'' (listing unlinked)) < 8"
    by (simp add: cells_listing_unlinked length_listing_cells)
  have f: "find_first ''a'' (find_all ''td'' (listing (linked attrs)) ! 1) = Some (?link attrs)"
    for attrs
    by (simp add: cells_listing nth_listing_cells find_first_linked)
  have f': "find_first ''a'' (find_all ''td'' (listing unlinked) ! 1) = None"
    by (simp add: cells_listing_unlinked nth_listing_cells find_first_unlinked)
  have h: "get_attr (?link ?a) ''href'' = Some ([] @ ''/company/482'')"
    "get_attr (?link ?a) ''href'' = Some ''/company/482''"
    "get_attr (?link []) ''href'' = None"
    by simp_all
  have s: "last (split CHR ''/'' ''/company/482'') \<noteq> []"
    by simp
  have r: "for_rows [listing (linked ?a)] [] = (None, [nabil (PyInt 482)])"
    by (simp only: sample_rows sum.case append.simps)
  have g: "get_companies True (site two_pages) =
      Some (Inr [nabil (PyInt 482), nabil PyNone],
        setup_calls @ pass_calls 1 @
          [WaitTable, PageSource, PrintScraped 2, FindElement, PrintFetched 2, Quit])"
    by (simp add: two_pages_run site_fields)
  note t = record_id_from_href
  from t [of "listing (linked ?a)" "?link ?a" "[]"] w f h(1)
  have 1: "\<exists>r. for_rows [listing (linked ?a)] [] = (None, [r]) \<and>
      map_of r ''id'' = Some (PyInt 482)"
    by blast
  from t [of "listing unlinked"] w' f'
  have 2: "\<exists>r. for_rows [listing unlinked] [] = (None, [r]) \<and> map_of r ''id'' = Some PyNone"
    by blast
  from t [of "listing (linked [])" "?link []"] w f h(3)
  have 3: "\<exists>r. for_rows [listing (linked [])] [] = (None, [r]) \<and>
      map_of r ''id'' = Some PyNone"
    by blast
  from t [of "listing (linked ?a)" "?link ?a" _ "''/company/482''" "nabil (PyInt 482)"]
    w f h(2) s r
  have 4: "\<exists>n. int_of_str (last (split CHR ''/'' ''/company/482'')) = Inr n \<and>
      map_of (nabil (PyInt 482)) ''id'' = Some (PyInt n)"
    by blast
  from t [of _ _ _ _ _ True "site two_pages" "[nabil (PyInt 482), nabil PyNone]"] g
  have 5: "\<forall>r\<in>set [nabil (PyInt 482), nabil PyNone].
      map_of r ''id'' = Some PyNone \<or> (\<exists>n. map_of r ''id'' = Some (PyInt n))"
    by blast
  from 1 2 3 4 5 show ?thesis
    by simp
qed

section \<open>Strings and numbers come back\<close>

lemma hex_value_digit: "d < 16 \<Longrightarrow> hex_value (hex_digit d) = Some d"
proof -
  assume "d < 16"
  then have "d \<in> {0, 1, 2, 3, 4, 5, 6, 7, 8, 9, 10, 11, 12, 13, 14, 15}"
    by auto arith
  then show ?thesis
    by (auto simp: hex_value_def hex_digit_def)
qed

lemma hex_value_0: "hex_value CHR ''0'' = Some 0"
  by (simp add: hex_value_def)

lemma hex4_low:
  assumes "(of_char c :: nat) < 32"
  shows "hex4 CHR ''0'' CHR ''0'' (hex_digit (of_char c div 16)) (hex_digit (of_char c mod 16)) =
    Some c"
proof -
  let ?n = "of_char c :: nat"
  have "?n div 16 < 16" "?n mod 16 < 16"
    using assms by simp_all
  then have "hex_value (hex_digit (?n div 16)) = Some (?n div 16)"
    "hex_value (hex_digit (?n mod 16)) = Some (?n mod 16)"
    by (simp_all add: hex_value_digit)
  moreover have "?n < 256"
    using assms by simp
  ultimately show ?thesis
    by (simp add: hex4_def hex_value_0)
qed

lemma scan_escape_char:
  "scan_string acc (escape_char c @ rest) = scan_string (acc @ [c]) rest"
proof -
  have q: "quote \<noteq> backslash" "backslash \<noteq> quote"
    by (simp_all add: quote_def backslash_def)
  consider "c = quote" | "c = backslash" | "c = CHR 0x0A" | "c = CHR 0x0D" | "c = CHR 0x09"
    | "c = CHR 0x08" | "c = CHR 0x0C"
    | "c \<notin> {quote, backslash, CHR 0x0A, CHR 0x0D, CHR 0x09, CHR 0x08, CHR 0x0C}"
      "(of_char c :: nat) < 32"
    | "c \<notin> {quote, backslash, CHR 0x0A, CHR 0x0D, CHR 0x09, CHR 0x08, CHR 0x0C}"
      "\<not> (of_char c :: nat) < 32"
    by blast
  then show ?thesis
  proof cases
    case 8
    then show ?thesis
      using q hex4_low [of c]
      by (simp add: escape_char_def)
  next
    case 9
    then show ?thesis
      by (simp add: escape_char_def)
  qed (simp_all add: escape_char_def unescape_def quote_def backslash_def)
qed

lemma scan_escaped:
  "scan_string acc (concat (map escape_char s) @ quote # rest) = Some (acc @ s, rest)"
  by (induction s arbitrary: acc) (simp_all add: scan_escape_char)

lemma scan_encode_str: "scan_string [] (tl (encode_str s) @ rest) = Some (s, rest)"
  using scan_escaped [of "[]" s rest] by (simp add: encode_str_def)

lemma digit_char:
  assumes "k < 10"
  shows "isdigit (digit_char k)" and "digit_value (digit_char k) = k"
    and "digit_char k = CHR ''0'' \<longleftrightarrow> k = 0"
proof -
  have "k \<in> {0, 1, 2, 3, 4, 5, 6, 7, 8, 9}"
    using assms by auto
  then show "isdigit (digit_char k)" and "digit_value (digit_char k) = k"
    and "digit_char k = CHR ''0'' \<longleftrightarrow> k = 0"
    by (auto simp: isdigit_def digit_value_def digit_char_def)
qed

lemma digits_not_Nil: "digits n \<noteq> []"
  by (subst digits.simps) simp

lemma digits_all: "list_all isdigit (digits n)"
proof (induction n rule: digits.induct)
  case (1 n)
  show ?case
    using 1 by (subst digits.simps) (simp add: digit_char(1))
qed

lemma decimal_snoc: "decimal (xs @ [c]) acc = decimal xs acc * 10 + digit_value c"
  by (simp add: decimal_def)

lemma decimal_digits: "decimal (digits n) 0 = n"
proof (induction n rule: digits.induct)
  case (1 n)
  show ?case
  proof (cases "n < 10")
    case True
    then show ?thesis
      by (subst digits.simps) (simp add: decimal_def digit_char(2))
  next
    case False
    then have "decimal (digits (n div 10)) 0 = n div 10"
      using 1 by simp
    then show ?thesis
      using False by (subst digits.simps) (simp add: decimal_snoc digit_char(2))
  qed
qed

lemma hd_digits: "hd (digits n) = CHR ''0'' \<longleftrightarrow> n = 0"
proof (induction n rule: digits.induct)
  case (1 n)
  show ?case
  proof (cases "n < 10")
    case True
    then show ?thesis
      by (subst digits.simps) (simp add: digit_char(3))
  next
    case False
    then have "hd (digits (n div 10)) \<noteq> CHR ''0''"
      using 1 by simp
    then show ?thesis
      using False digits_not_Nil [of "n div 10"] by (subst digits.simps) simp
  qed
qed

lemma digits_0: "digits 0 = ''0''"
  using digit_char(3) [of 0] by (subst digits.simps) simp

text \<open>What may follow a number in the text: nothing a number could go on with.\<close>

lemma takeWhile_digits:
  assumes "rest = [] \<or> \<not> isdigit (hd rest)"
  shows "takeWhile isdigit (digits n @ rest) = digits n"
proof -
  have "\<forall>c\<in>set (digits n). isdigit c"
    using digits_all [of n] by (simp add: list_all_iff)
  moreover have "takeWhile isdigit rest = []"
    using assms by (cases rest) auto
  ultimately show ?thesis
    by (simp add: takeWhile_append2)
qed

lemma scan_number_nat:
  assumes "rest = [] \<or> \<not> isdigit (hd rest) \<and> hd rest \<notin> {CHR ''.'', CHR ''e'', CHR ''E''}"
  shows "scan_number (digits n @ rest) = Some (int n, rest)"
proof -
  obtain d ds where d: "digits n = d # ds"
    using digits_not_Nil [of n] by (cases "digits n") auto
  have dd: "isdigit d"
    using digits_all [of n] d by simp
  then have m: "d \<noteq> CHR ''-''"
    by (auto simp: isdigit_def)
  have t: "takeWhile isdigit (digits n @ rest) = digits n"
    using assms by (intro takeWhile_digits) auto
  show ?thesis
  proof (cases "d = CHR ''0''")
    case True
    then have "n = 0"
      using hd_digits [of n] d by simp
    then show ?thesis
      using assms by (auto simp: scan_number_def digits_0 isdigit_def decimal_def digit_value_def)
  next
    case False
    have "decimal (d # ds) 0 = n"
      using decimal_digits [of n] d by simp
    then show ?thesis
      using assms False dd m t d by (auto simp: scan_number_def Let_def)
  qed
qed

lemma scan_number_int:
  assumes "rest = [] \<or> \<not> isdigit (hd rest) \<and> hd rest \<notin> {CHR ''.'', CHR ''e'', CHR ''E''}"
  shows "scan_number (encode_int i @ rest) = Some (i, rest)"
proof (cases "i < 0")
  case False
  then show ?thesis
    using scan_number_nat [OF assms, of "nat i"] by (simp add: encode_int_def)
next
  case True
  let ?n = "nat (- i)"
  obtain d ds where d: "digits ?n = d # ds"
    using digits_not_Nil [of ?n] by (cases "digits ?n") auto
  have dd: "isdigit d"
    using digits_all [of ?n] d by simp
  have z: "d \<noteq> CHR ''0''"
    using hd_digits [of ?n] d True by auto
  have t: "takeWhile isdigit (digits ?n @ rest) = digits ?n"
    using assms by (intro takeWhile_digits) auto
  have "decimal (d # ds) 0 = ?n"
    using decimal_digits [of ?n] d by simp
  then show ?thesis
    using assms True dd z t d by (auto simp: scan_number_def encode_int_def Let_def)
qed

section \<open>Values, dictionaries and lists come back\<close>

lemma stops_number:
  "stops rest \<Longrightarrow>
   rest = [] \<or> \<not> isdigit (hd rest) \<and> hd rest \<notin> {CHR ''.'', CHR ''e'', CHR ''E''}"
  by (auto simp: stops_def isdigit_def newline_def)

lemma encode_int_head:
  obtains c cs where "encode_int i = c # cs" and "c = CHR ''-'' \<or> isdigit c"
proof (cases "i < 0")
  case True
  then show ?thesis
    using that by (simp add: encode_int_def)
next
  case False
  obtain d ds where "digits (nat i) = d # ds"
    using digits_not_Nil [of "nat i"] by (cases "digits (nat i)") auto
  moreover from this have "isdigit d"
    using digits_all [of "nat i"] by simp
  ultimately show ?thesis
    using that False by (simp add: encode_int_def)
qed

lemma parse_value_scalar:
  assumes "stops rest"
  shows "parse_value (Suc f) (encode_value v @ rest) = Some (json_of v, rest)"
proof (cases v)
  case PyNone
  then show ?thesis
    by (simp add: encode_value_def json_of_def quote_def)
next
  case (PyStr s)
  then show ?thesis
    using scan_escaped [of "[]" s rest]
    by (simp add: encode_value_def json_of_def encode_str_def)
next
  case (PyInt i)
  obtain c cs where c: "encode_int i = c # cs" and h: "c = CHR ''-'' \<or> isdigit c"
    by (rule encode_int_head)
  have 1: "c \<noteq> quote" "c \<noteq> CHR ''{''" "c \<noteq> CHR ''[''" "c \<noteq> CHR ''n''" "c \<noteq> CHR ''t''"
    "c \<noteq> CHR ''f''"
    using h by (auto simp: isdigit_def quote_def)
  have 2: "scan_number (c # cs @ rest) = Some (i, rest)"
    using scan_number_int [OF stops_number [OF assms], of i] c by simp
  have 3: "take 4 (c # cs @ rest) \<noteq> ''null''" "take 4 (c # cs @ rest) \<noteq> ''true''"
    "take 5 (c # cs @ rest) \<noteq> ''false''"
    using 1 by (auto simp: take_Cons')
  show ?thesis
    using PyInt c 1 2 3 by (simp add: encode_value_def json_of_def del: take_Suc_Cons)
qed

lemma encode_value_head:
  obtains c cs where "encode_value v = c # cs" and "\<not> is_ws c"
proof (cases v)
  case PyNone
  then show ?thesis
    using that by (simp add: encode_value_def is_ws_def)
next
  case (PyStr s)
  then show ?thesis
    using that [of quote] by (simp add: encode_value_def encode_str_def is_ws_def quote_def)
next
  case (PyInt i)
  obtain c cs where c: "encode_int i = c # cs" and "c = CHR ''-'' \<or> isdigit c"
    by (rule encode_int_head)
  then have "\<not> is_ws c"
    by (auto simp: is_ws_def isdigit_def)
  then show ?thesis
    using that [of c cs] PyInt c by (simp add: encode_value_def)
qed

lemma skip_ws_value: "skip_ws (CHR '' '' # encode_value v @ rest) = encode_value v @ rest"
proof -
  obtain c cs where "encode_value v = c # cs" and "\<not> is_ws c"
    by (rule encode_value_head)
  then show ?thesis
    by (simp add: skip_ws_def is_ws_def)
qed

text \<open>One entry of a dictionary, up to what follows its value.\<close>

lemma parse_object_entry:
  assumes "stops tail"
  shows "parse_object (Suc (Suc f)) acc (encode_item kv @ tail) =
    (case skip_ws tail of
       [] \<Rightarrow> None
     | c # r \<Rightarrow>
         if c = CHR ''}'' then Some (JObj (setitem acc (fst kv) (json_of (snd kv))), r)
         else if c = CHR '','' then
           parse_object (Suc f) (setitem acc (fst kv) (json_of (snd kv))) (skip_ws r)
         else None)"
proof -
  let ?t = "CHR '':'' # CHR '' '' # encode_value (snd kv) @ tail"
  have 1: "scan_string [] (concat (map escape_char (fst kv)) @ quote # ?t) = Some (fst kv, ?t)"
    using scan_escaped [of "[]" "fst kv" ?t] by simp
  have 2: "skip_ws ?t = ?t"
    by (simp add: skip_ws_def is_ws_def)
  have 3: "skip_ws (CHR '' '' # encode_value (snd kv) @ tail) = encode_value (snd kv) @ tail"
    by (rule skip_ws_value)
  have 4: "parse_value (Suc f) (encode_value (snd kv) @ tail) = Some (json_of (snd kv), tail)"
    using assms by (rule parse_value_scalar)
  show ?thesis
    by (simp add: encode_item_def encode_str_def 1 2 3 4 del: parse_value.simps)
qed


lemma join_Cons: "xs \<noteq> [] \<Longrightarrow> join sep (x # xs) = x @ sep @ join sep xs"
  by (cases xs) simp_all

lemma encode_item_head: "\<exists>cs. encode_item kv = quote # cs"
  by (simp add: encode_item_def encode_str_def)

lemma join_items_head:
  assumes "items \<noteq> []"
  shows "\<exists>cs. join sep (map encode_item items) @ rest = quote # cs"
proof (cases items)
  case Nil
  then show ?thesis using assms by simp
next
  case (Cons kv more)
  obtain cs where "encode_item kv = quote # cs"
    using encode_item_head by blast
  then show ?thesis
    using Cons by (cases more) simp_all
qed

lemma skip_ws_quote: "skip_ws (newline # ''    '' @ quote # cs) = quote # cs"
  by (simp add: skip_ws_def is_ws_def newline_def quote_def)

text \<open>The entries of a dictionary, from the first key to the closing brace.\<close>

lemma parse_object_items:
  assumes "items \<noteq> []" and "length items < f"
  shows "parse_object f acc
      (join (CHR '','' # newline # ''    '') (map encode_item items) @
       newline # ''  }'' @ rest) =
    Some (JObj (foldl (\<lambda>a kv. setitem a (fst kv) (json_of (snd kv))) acc items), rest)"
  using assms
proof (induction items arbitrary: acc f rule: list_nonempty_induct)
  case (single kv)
  then obtain g where f: "f = Suc (Suc g)"
    by (cases f; cases "f - 1") auto
  have "stops (newline # ''  }'' @ rest)"
    by (simp add: stops_def)
  then show ?case
    unfolding f by (simp add: parse_object_entry skip_ws_def is_ws_def newline_def
        del: parse_object.simps)
next
  case (cons kv items)
  then obtain g where f: "f = Suc (Suc g)"
    by (cases f; cases "f - 1") auto
  let ?sep = "CHR '','' # newline # ''    ''"
  let ?more = "join ?sep (map encode_item items) @ newline # ''  }'' @ rest"
  obtain cs where cs: "?more = quote # cs"
    using join_items_head [OF cons.hyps(1)] by blast
  have s: "stops (?sep @ ?more)"
    by (simp add: stops_def)
  have j: "join ?sep (map encode_item (kv # items)) @ newline # ''  }'' @ rest =
      encode_item kv @ ?sep @ ?more"
    using cons.hyps(1) by (simp add: join_Cons)
  have k: "skip_ws (?sep @ ?more) = CHR '','' # newline # ''    '' @ ?more"
    by (simp add: skip_ws_def is_ws_def)
  have w: "skip_ws (newline # ''    '' @ ?more) = ?more"
    unfolding cs by (rule skip_ws_quote)
  have e: "parse_object (Suc (Suc g)) acc (encode_item kv @ ?sep @ ?more) =
      parse_object (Suc g) (setitem acc (fst kv) (json_of (snd kv)))
        (skip_ws (newline # ''    '' @ ?more))"
    unfolding parse_object_entry [OF s] k by simp
  have "length items < Suc g"
    using cons.prems f by simp
  from cons.IH [OF this] show ?case
    unfolding f j e w by simp
qed

lemma setitem_fresh: "k \<notin> fst ` set acc \<Longrightarrow> setitem acc k v = acc @ [(k, v)]"
  by (induction acc) auto

lemma foldl_setitem_distinct:
  "distinct (map fst acc @ map fst items) \<Longrightarrow>
   foldl (\<lambda>a kv. setitem a (fst kv) (json_of (snd kv))) acc items =
     acc @ map (\<lambda>kv. (fst kv, json_of (snd kv))) items"
proof (induction items arbitrary: acc)
  case Nil
  then show ?case by simp
next
  case (Cons kv items)
  have 1: "setitem acc (fst kv) (json_of (snd kv)) = acc @ [(fst kv, json_of (snd kv))]"
    using Cons.prems by (intro setitem_fresh) auto
  have 2: "distinct (map fst (acc @ [(fst kv, json_of (snd kv))]) @ map fst items)"
    using Cons.prems by auto
  show ?case
    using Cons.IH [OF 2] by (simp add: 1)
qed

lemma parse_value_brace:
  "skip_ws r = quote # cs \<Longrightarrow> parse_value (Suc f) (CHR ''{'' # r) = parse_object f [] (quote # cs)"
  by (simp add: quote_def del: parse_object.simps)

lemma parse_value_bracket:
  "skip_ws r = CHR ''{'' # cs \<Longrightarrow>
   parse_value (Suc f) (CHR ''['' # r) = parse_array f [] (CHR ''{'' # cs)"
  by (simp add: quote_def del: parse_array.simps)

lemma parse_array_comma:
  "parse_value f s = Some (v, r) \<Longrightarrow> skip_ws r = CHR '','' # r' \<Longrightarrow>
   parse_array (Suc f) acc s = parse_array f (acc @ [v]) (skip_ws r')"
  by (simp del: parse_value.simps)

lemma parse_array_close:
  "parse_value f s = Some (v, r) \<Longrightarrow> skip_ws r = CHR '']'' # r' \<Longrightarrow>
   parse_array (Suc f) acc s = Some (JArr (acc @ [v]), r')"
  by (simp del: parse_value.simps)

text \<open>A dictionary with distinct keys.\<close>

lemma parse_value_dict:
  assumes "distinct (map fst r)" and "length r < f"
  shows "parse_value (Suc f) (encode_dict r @ rest) =
    Some (JObj (map (\<lambda>kv. (fst kv, json_of (snd kv))) r), rest)"
proof (cases "r = []")
  case True
  then show ?thesis
    by (simp add: encode_dict_def skip_ws_def is_ws_def quote_def)
next
  case False
  let ?body = "join (CHR '','' # newline # ''    '') (map encode_item r) @
    newline # ''  }'' @ rest"
  obtain cs where cs: "?body = quote # cs"
    using join_items_head [OF False] by blast
  have e: "encode_dict r @ rest = CHR ''{'' # newline # ''    '' @ quote # cs"
    using False cs by (simp add: encode_dict_def)
  have "parse_object f [] ?body =
      Some (JObj (foldl (\<lambda>a kv. setitem a (fst kv) (json_of (snd kv))) [] r), rest)"
    using False assms(2) by (rule parse_object_items)
  then have p: "parse_object f [] (quote # cs) =
      Some (JObj (foldl (\<lambda>a kv. setitem a (fst kv) (json_of (snd kv))) [] r), rest)"
    unfolding cs .
  have b: "parse_value (Suc f) (CHR ''{'' # newline # ''    '' @ quote # cs) =
      parse_object f [] (quote # cs)"
    using skip_ws_quote by (rule parse_value_brace)
  show ?thesis
    unfolding e b p using foldl_setitem_distinct [of "[]" r] assms(1) by simp
qed

lemma encode_dict_head: "\<exists>cs. encode_dict r = CHR ''{'' # cs"
  by (simp add: encode_dict_def)

lemma join_dicts_head:
  assumes "data \<noteq> []"
  shows "\<exists>cs. join sep (map encode_dict data) @ rest = CHR ''{'' # cs"
proof (cases data)
  case Nil
  then show ?thesis using assms by simp
next
  case (Cons r more)
  obtain cs where "encode_dict r = CHR ''{'' # cs"
    using encode_dict_head by blast
  then show ?thesis
    using Cons by (cases more) simp_all
qed

lemma skip_ws_brace: "skip_ws (newline # ''  '' @ CHR ''{'' # cs) = CHR ''{'' # cs"
  by (simp add: skip_ws_def is_ws_def newline_def)

text \<open>The dictionaries of the list, from the first to the closing bracket.\<close>

lemma parse_array_dicts:
  assumes "data \<noteq> []"
    and "\<forall>r\<in>set data. distinct (map fst r) \<and> length r \<le> m"
    and "length data + m + 2 \<le> f"
  shows "parse_array f acc
      (join (CHR '','' # newline # ''  '') (map encode_dict data) @ newline # '']'' @ rest) =
    Some (JArr (acc @ map (\<lambda>r. JObj (map (\<lambda>kv. (fst kv, json_of (snd kv))) r)) data), rest)"
  using assms
proof (induction data arbitrary: acc f rule: list_nonempty_induct)
  case (single r)
  then obtain g where f: "f = Suc (Suc g)" and g: "length r < g"
    by (cases f; cases "f - 1") auto
  have d: "distinct (map fst r)"
    using single by simp
  have s: "skip_ws (newline # '']'' @ rest) = CHR '']'' # rest"
    by (simp add: skip_ws_def is_ws_def newline_def)
  show ?case
    unfolding f using parse_array_close [OF parse_value_dict [OF d g] s] by simp
next
  case (cons r data)
  then obtain g where f: "f = Suc (Suc g)" and g: "length r < g"
    by (cases f; cases "f - 1") auto
  have d: "distinct (map fst r)"
    using cons.prems by simp
  let ?sep = "CHR '','' # newline # ''  ''"
  let ?more = "join ?sep (map encode_dict data) @ newline # '']'' @ rest"
  let ?v = "JObj (map (\<lambda>kv. (fst kv, json_of (snd kv))) r)"
  obtain cs where cs: "?more = CHR ''{'' # cs"
    using join_dicts_head [OF cons.hyps(1)] by blast
  have j: "join ?sep (map encode_dict (r # data)) @ newline # '']'' @ rest =
      encode_dict r @ ?sep @ ?more"
    using cons.hyps(1) by (simp add: join_Cons)
  have k: "skip_ws (?sep @ ?more) = CHR '','' # newline # ''  '' @ ?more"
    by (simp add: skip_ws_def is_ws_def)
  have w: "skip_ws (newline # ''  '' @ ?more) = ?more"
    unfolding cs by (rule skip_ws_brace)
  have e: "parse_array (Suc (Suc g)) acc (encode_dict r @ ?sep @ ?more) =
      parse_array (Suc g) (acc @ [?v]) (skip_ws (newline # ''  '' @ ?more))"
    using parse_value_dict [OF d g] k by (rule parse_array_comma)
  have 1: "\<forall>r\<in>set data. distinct (map fst r) \<and> length r \<le> m"
    using cons.prems by simp
  have 2: "length data + m + 2 \<le> Suc g"
    using cons.prems f by simp
  from cons.IH [OF 1 2] show ?case
    unfolding f j e w by simp
qed

section \<open>The text is long enough for the reader\<close>

lemma length_join: "sum_list (map length xs) \<le> length (join sep xs)"
  by (induction sep xs rule: join.induct) auto

lemma length_encode_dict: "length r + 1 \<le> length (encode_dict r)"
proof (cases "r = []")
  case True
  then show ?thesis by (simp add: encode_dict_def)
next
  case False
  have "length r = sum_list (map (\<lambda>kv. 1) r)"
    by (simp add: sum_list_triv)
  also have "\<dots> \<le> sum_list (map (\<lambda>kv. length (encode_item kv)) r)"
    by (intro sum_list_mono) (simp add: encode_item_def)
  also have "\<dots> \<le> length (join (CHR '','' # newline # ''    '') (map encode_item r))"
    using length_join [of "map encode_item r"] by (simp add: comp_def)
  finally show ?thesis
    using False by (simp add: encode_dict_def)
qed

lemma length_dumps:
  assumes "data \<noteq> []"
  shows "length data + sum_list (map length data) + 6 \<le> length (dumps data)"
proof -
  have "length data + sum_list (map length data) = sum_list (map (\<lambda>r. length r + 1) data)"
    by (induction data) simp_all
  also have "\<dots> \<le> sum_list (map (\<lambda>r. length (encode_dict r)) data)"
    using length_encode_dict by (intro sum_list_mono) simp
  also have "\<dots> \<le> length (join (CHR '','' # newline # ''  '') (map encode_dict data))"
    using length_join [of "map encode_dict data"] by (simp add: comp_def)
  finally show ?thesis
    using assms by (simp add: dumps_def)
qed

section \<open>The list comes back\<close>

lemma loads_dumps:
  assumes "\<forall>r\<in>set data. distinct (map fst r)"
  shows "loads (dumps data) = Some (as_loaded data)"
proof (cases "data = []")
  case True
  then show ?thesis
    by (simp add: loads_def dumps_def as_loaded_def skip_ws_def is_ws_def quote_def)
next
  case False
  let ?m = "sum_list (map length data)"
  let ?body = "join (CHR '','' # newline # ''  '') (map encode_dict data) @ newline # '']'' @ []"
  obtain cs where cs: "?body = CHR ''{'' # cs"
    using join_dicts_head [OF False] by blast
  have t: "dumps data = CHR ''['' # newline # ''  '' @ CHR ''{'' # cs"
    using False cs by (simp add: dumps_def)
  have s: "skip_ws (dumps data) = dumps data"
    unfolding t by (simp add: skip_ws_def is_ws_def)
  obtain f where f: "length (dumps data) = Suc f" and g: "length data + ?m + 2 \<le> f"
    using length_dumps [OF False] by (cases "length (dumps data)") auto
  have 1: "\<forall>r\<in>set data. distinct (map fst r) \<and> length r \<le> ?m"
    using assms by (auto intro: member_le_sum_list)
  have "parse_array f [] ?body =
      Some (JArr ([] @ map (\<lambda>r. JObj (map (\<lambda>kv. (fst kv, json_of (snd kv))) r)) data), [])"
    using False 1 g by (rule parse_array_dicts)
  then have p: "parse_array f [] (CHR ''{'' # cs) = Some (as_loaded data, [])"
    unfolding cs by (simp add: as_loaded_def)
  have b: "parse_value (Suc f) (CHR ''['' # newline # ''  '' @ CHR ''{'' # cs) =
      parse_array f [] (CHR ''{'' # cs)"
    using skip_ws_brace by (rule parse_value_bracket)
  have "parse_value (length (dumps data)) (dumps data) = Some (as_loaded data, [])"
    unfolding f unfolding t b p ..
  then have "(case parse_value (length (dumps data)) (dumps data) of
        None \<Rightarrow> None
      | Some (v, r) \<Rightarrow> if skip_ws r = [] then Some v else None) = Some (as_loaded data)"
    by (simp add: skip_ws_def)
  then show ?thesis
    unfolding loads_def Let_def s .
qed

lemma is_record_distinct: "is_record r \<Longrightarrow> distinct (map fst r)"
  by (simp add: is_record_def)

lemma inj_json_of: "inj json_of"
  by (rule injI) (auto simp: json_of_def split: pyval.splits)

lemma inj_as_loaded: "inj as_loaded"
proof -
  have "inj (\<lambda>kv :: string \<times> pyval. (fst kv, json_of (snd kv)))"
    using inj_json_of by (auto simp: inj_def)
  then have "inj (\<lambda>r :: company. JObj (map (\<lambda>kv. (fst kv, json_of (snd kv))) r))"
    by (auto simp: inj_def dest!: map_injective [rotated] intro: injI)
  then have "inj (map (\<lambda>r :: company. JObj (map (\<lambda>kv. (fst kv, json_of (snd kv))) r)))"
    by simp
  then show ?thesis
    by (auto simp: inj_def as_loaded_def)
qed

lemma is_record_nabil: "is_record (nabil (PyInt i))" "is_record (nabil PyNone)"
  by (simp_all add: is_record_def nabil_def id_valid_def is_str_def)

text \<open>
  C9. A list of records written by \<^verbatim>\<open>json.dump\<close> with \<^verbatim>\<open>indent=2\<close> and
  \<^verbatim>\<open>ensure_ascii=False\<close> and read back is the same list: the same records in the
  same order, each with the same keys in the same order and the same values, an id
  \<^verbatim>\<open>None\<close> coming back as \<^verbatim>\<open>None\<close>. This holds for every list of records,
  so for every list that \<open>get_companies\<close> returns, and different lists come back
  different.
\<close>

theorem json_round_trip:
  "(list_all is_record data \<longrightarrow> loads (dumps data) = Some (as_loaded data)) \<and>
   (get_companies pull_latest b = Some (Inr rs, log) \<longrightarrow>
      loads (dumps rs) = Some (as_loaded rs)) \<and>
   inj as_loaded"
proof (intro conjI impI)
  assume "list_all is_record data"
  then have "\<forall>r\<in>set data. distinct (map fst r)"
    by (simp add: list_all_iff is_record_distinct)
  then show "loads (dumps data) = Some (as_loaded data)"
    by (rule loads_dumps)
next
  assume "get_companies pull_latest b = Some (Inr rs, log)"
  then have "list_all is_record rs"
    by (rule get_companies_records)
  then have "\<forall>r\<in>set rs. distinct (map fst r)"
    by (simp add: list_all_iff is_record_distinct)
  then show "loads (dumps rs) = Some (as_loaded rs)"
    by (rule loads_dumps)
next
  show "inj as_loaded"
    by (rule inj_as_loaded)
qed

theorem json_round_trip_witness:
  "list_all is_record [nabil (PyInt 482), nabil PyNone] \<and>
   get_companies True (site two_pages) =
     Some (Inr [nabil (PyInt 482), nabil PyNone],
       setup_calls @ pass_calls 1 @
         [WaitTable, PageSource, PrintScraped 2, FindElement, PrintFetched 2, Quit]) \<and>
   loads (dumps [nabil (PyInt 482), nabil PyNone]) =
     Some (JArr
       [JObj [(''id'', JInt 482),
              (''companyName'', JStr ''Nabil Bank Limited''),
              (''symbol'', JStr ''NABIL''),
              (''securityName'', JStr ''Nabil Bank Limited''),
              (''status'', JStr ''Active''),
              (''sectorName'', JStr ''Commercial Banks''),
              (''instrumentType'', JStr ''Equity''),
              (''companyEmail'', JStr ''info@nabilbank.com''),
              (''website'', JStr ''www.nabilbank.com''),
              (''regulatoryBody'', JStr ''SEBON'')],
        JObj [(''id'', JNull),
              (''companyName'', JStr ''Nabil Bank Limited''),
              (''symbol'', JStr ''NABIL''),
              (''securityName'', JStr ''Nabil Bank Limited''),
              (''status'', JStr ''Active''),
              (''sectorName'', JStr ''Commercial Banks''),
              (''instrumentType'', JStr ''Equity''),
              (''companyEmail'', JStr ''info@nabilbank.com''),
              (''website'', JStr ''www.nabilbank.com''),
              (''regulatoryBody'', JStr ''SEBON'')]])"
proof -
  let ?data = "[nabil (PyInt 482), nabil PyNone]"
  have 1: "list_all is_record ?data"
    by (simp add: is_record_nabil)
  have 2: "get_companies True (site two_pages) =
      Some (Inr ?data,
        setup_calls @ pass_calls 1 @
          [WaitTable, PageSource, PrintScraped 2, FindElement, PrintFetched 2, Quit])"
    by (simp add: two_pages_run site_fields)
  have 3: "loads (dumps ?data) = Some (as_loaded ?data)"
    using json_round_trip [of ?data True "site two_pages" ?data] 1 by blast
  have 4: "loads (dumps ?data) = Some (as_loaded ?data)"
    using json_round_trip [of ?data True "site two_pages" ?data] 2 by blast
  show ?thesis
    using 1 2 3 4 by (simp add: as_loaded_def nabil_def json_of_def)
qed

end
